theory Spec2Isabelle
  imports Main "HOL-Library.List_Lexorder" "HOL-Library.AList"
begin

section \<open>Python strings\<close>

text \<open>
  A Python \<open>str\<close> is a sequence of Unicode code points, so it is modelled as a list of
  natural numbers; \<open>len\<close> is \<open>length\<close>, \<open>s[:n]\<close> is \<open>take n s\<close>, and the
  comparison of two strings is the lexicographic order of the code points (the order of
  lists from \<open>List_Lexorder\<close>). A literal of the source is written \<open>u ''...''\<close>.
\<close>

type_synonym pystr = "nat list"

definition u :: "string \<Rightarrow> pystr" where
  "u s = map of_char s"

text \<open>
  \<open>str.isalnum\<close>, \<open>str.lower\<close> and \<open>str.isspace\<close> are tables of the Unicode database
  built into the interpreter. They are not part of the repository, so the functions that
  consult them take them as a parameter. \<open>lower\<close> returns a string: lower-casing one
  character can yield several.
\<close>

record unicode_db =
  isalnum :: "nat \<Rightarrow> bool"
  lower :: "nat \<Rightarrow> pystr"
  isspace :: "nat \<Rightarrow> bool"

text \<open>\<open>sep.join(parts)\<close>.\<close>

fun join :: "pystr \<Rightarrow> pystr list \<Rightarrow> pystr" where
  "join sep [] = []"
| "join sep [p] = p"
| "join sep (p # q # ps) = p @ sep @ join sep (q # ps)"

text \<open>\<open>s.split(c)\<close> for a separator of one character; the result is never empty.\<close>

fun split_on :: "nat \<Rightarrow> pystr \<Rightarrow> pystr list" where
  "split_on c [] = [[]]"
| "split_on c (x # xs) =
     (if x = c then [] # split_on c xs
      else (case split_on c xs of [] \<Rightarrow> [[x]] | p # ps \<Rightarrow> (x # p) # ps))"

text \<open>\<open>s[-n:]\<close> for \<open>n > 0\<close>.\<close>

definition lastn :: "nat \<Rightarrow> 'a list \<Rightarrow> 'a list" where
  "lastn n xs = drop (length xs - n) xs"

text \<open>\<open>s.strip()\<close>.\<close>

definition strip :: "unicode_db \<Rightarrow> pystr \<Rightarrow> pystr" where
  "strip db s = rev (dropWhile (isspace db) (rev (dropWhile (isspace db) s)))"

text \<open>\<open>str(n)\<close> for an integer, as an f-string formats it.\<close>

fun digits :: "nat \<Rightarrow> nat \<Rightarrow> pystr" where
  "digits 0 n = []"
| "digits (Suc k) n = (if n < 10 then [48 + n] else digits k (n div 10) @ [48 + n mod 10])"

definition str_nat :: "nat \<Rightarrow> pystr" where
  "str_nat n = digits (Suc n) n"

definition str_int :: "int \<Rightarrow> pystr" where
  "str_int i = (if i < 0 then 45 # str_nat (nat (- i)) else str_nat (nat i))"

definition hyphen :: nat where
  "hyphen = 45"

section \<open>Branch-name slug\<close>

text \<open>
  \<^verbatim>\<open>
  def _slug(text):
      clean = "".join(ch.lower() if ch.isalnum() else "-" for ch in text)
      clean = "-".join(part for part in clean.split("-") if part)
      return clean[:40] or "upgrade"
  \<close>
\<close>

definition slug_clean :: "unicode_db \<Rightarrow> pystr \<Rightarrow> pystr" where
  "slug_clean db text = concat (map (\<lambda>ch. if isalnum db ch then lower db ch else [hyphen]) text)"

definition slug :: "unicode_db \<Rightarrow> pystr \<Rightarrow> pystr" where
  "slug db text =
     (let clean = slug_clean db text;
          clean = join [hyphen] (filter (\<lambda>part. part \<noteq> []) (split_on hyphen clean));
          clean = take 40 clean
      in if clean = [] then u ''upgrade'' else clean)"

text \<open>
  The tables of \<open>str.isalnum\<close>, \<open>str.lower\<close> and \<open>str.isspace\<close> on the ASCII range and on
  the code points U+0130 (LATIN CAPITAL LETTER I WITH DOT ABOVE, a letter whose lower
  case is \<open>i\<close> followed by U+0307) and U+0307 (COMBINING DOT ABOVE, a mark and not
  alphanumeric). The examples below consult the tables only at these code points.
  \<open>ascii_db\<close> is the ASCII range alone.
\<close>

definition ascii_isalnum :: "nat \<Rightarrow> bool" where
  "ascii_isalnum c = ((48 \<le> c \<and> c \<le> 57) \<or> (65 \<le> c \<and> c \<le> 90) \<or> (97 \<le> c \<and> c \<le> 122))"

definition ascii_db :: unicode_db where
  "ascii_db = \<lparr> isalnum = ascii_isalnum,
                lower = (\<lambda>c. if 65 \<le> c \<and> c \<le> 90 then [c + 32] else [c]),
                isspace = (\<lambda>c. c = 32 \<or> (9 \<le> c \<and> c \<le> 13) \<or> (28 \<le> c \<and> c \<le> 31)) \<rparr>"

definition py_db :: unicode_db where
  "py_db = \<lparr> isalnum = (\<lambda>c. ascii_isalnum c \<or> c = 304),
             lower = (\<lambda>c. if 65 \<le> c \<and> c \<le> 90 then [c + 32]
                          else if c = 304 then [105, 775] else [c]),
             isspace = (\<lambda>c. c = 32 \<or> (9 \<le> c \<and> c \<le> 13) \<or> (28 \<le> c \<and> c \<le> 31)) \<rparr>"

text \<open>A character is a lowercase alphanumeric when it is alphanumeric and its own lower case.\<close>

definition lower_alnum :: "unicode_db \<Rightarrow> nat \<Rightarrow> bool" where
  "lower_alnum db c = (isalnum db c \<and> lower db c = [c])"

text \<open>No two neighbouring hyphens.\<close>

fun no_double_hyphen :: "pystr \<Rightarrow> bool" where
  "no_double_hyphen (a # b # cs) = (\<not> (a = hyphen \<and> b = hyphen) \<and> no_double_hyphen (b # cs))"
| "no_double_hyphen cs = True"

text \<open>The parts that \<open>_slug\<close> joins.\<close>

definition slug_parts :: "unicode_db \<Rightarrow> pystr \<Rightarrow> pystr list" where
  "slug_parts db text = filter (\<lambda>part. part \<noteq> []) (split_on hyphen (slug_clean db text))"

section \<open>Requests\<close>

text \<open>
  \<^verbatim>\<open>
  @dataclass
  class UpgradeRequest:
      id: str; title: str; prompt: str
      scope: str = "core"; requested_by: str = "unknown"
      created_at: str = field(default_factory=_utc_now)
  \<close>
  The field \<open>id\<close> is named \<open>req_id\<close> here.
\<close>

record upgrade_request =
  req_id :: pystr
  title :: pystr
  prompt :: pystr
  scope :: pystr
  requested_by :: pystr
  created_at :: pystr

text \<open>
  A reading of the local wall clock, \<open>datetime.now()\<close>. Two readings compare as Python
  compares them: field by field, from the year down to the microsecond.
\<close>

record datetime =
  dt_year :: nat
  dt_month :: nat
  dt_day :: nat
  dt_hour :: nat
  dt_minute :: nat
  dt_second :: nat
  dt_microsecond :: nat

definition dt_seconds :: "datetime \<Rightarrow> nat list" where
  "dt_seconds d = [dt_year d, dt_month d, dt_day d, dt_hour d, dt_minute d, dt_second d]"

definition dt_earlier :: "datetime \<Rightarrow> datetime \<Rightarrow> bool" where
  "dt_earlier d1 d2 = (dt_seconds d1 @ [dt_microsecond d1] < dt_seconds d2 @ [dt_microsecond d2])"

definition valid_dt :: "datetime \<Rightarrow> bool" where
  "valid_dt d = (1000 \<le> dt_year d \<and> dt_year d \<le> 9999 \<and> 1 \<le> dt_month d \<and> dt_month d \<le> 12
     \<and> 1 \<le> dt_day d \<and> dt_day d \<le> 31 \<and> dt_hour d < 24 \<and> dt_minute d < 60 \<and> dt_second d < 60
     \<and> dt_microsecond d < 1000000)"

text \<open>A decimal number padded with zeros to a minimal width, as \<open>%m\<close> or \<open>%S\<close> print it.\<close>

definition pad :: "nat \<Rightarrow> nat \<Rightarrow> pystr" where
  "pad w n = replicate (w - length (str_nat n)) 48 @ str_nat n"

text \<open>The decimal digits of a number at a fixed width, the lowest \<open>w\<close> digits.\<close>

fun fixed :: "nat \<Rightarrow> nat \<Rightarrow> pystr" where
  "fixed 0 n = []"
| "fixed (Suc w) n = fixed w (n div 10) @ [48 + n mod 10]"

text \<open>\<open>strftime('%Y%m%d-%H%M%S')\<close>; the year of a valid reading has four digits.\<close>

definition strftime_id :: "datetime \<Rightarrow> pystr" where
  "strftime_id d = pad 4 (dt_year d) @ pad 2 (dt_month d) @ pad 2 (dt_day d) @ [hyphen]
     @ pad 2 (dt_hour d) @ pad 2 (dt_minute d) @ pad 2 (dt_second d)"

text \<open>
  \<^verbatim>\<open>
  def create(cls, title, prompt, scope="core", requested_by="unknown"):
      return cls(
          id=f"{datetime.now().strftime('%Y%m%d-%H%M%S')}-{uuid.uuid4().hex[:6]}",
          title=title.strip(), prompt=prompt.strip(),
          scope=scope, requested_by=requested_by)
  \<close>
  The clock reading \<open>clock\<close>, the 32 hexadecimal digits \<open>uuid_hex\<close> of the random UUID and the
  text \<open>utc\<close> of \<open>_utc_now()\<close> come from the environment.
\<close>

definition create ::
  "unicode_db \<Rightarrow> datetime \<Rightarrow> pystr \<Rightarrow> pystr \<Rightarrow> pystr \<Rightarrow> pystr \<Rightarrow> pystr \<Rightarrow> pystr \<Rightarrow> upgrade_request" where
  "create db clock uuid_hex utc title_arg prompt_arg scope_arg requested_by_arg =
     \<lparr> req_id = strftime_id clock @ [hyphen] @ take 6 uuid_hex,
       title = strip db title_arg,
       prompt = strip db prompt_arg,
       scope = scope_arg,
       requested_by = requested_by_arg,
       created_at = utc \<rparr>"

text \<open>Three clock readings: two in the same second, the third one second later.\<close>

definition ex_dt_a :: datetime where
  "ex_dt_a = \<lparr> dt_year = 2026, dt_month = 1, dt_day = 5, dt_hour = 9, dt_minute = 30,
               dt_second = 7, dt_microsecond = 100 \<rparr>"

definition ex_dt_b :: datetime where
  "ex_dt_b = \<lparr> dt_year = 2026, dt_month = 1, dt_day = 5, dt_hour = 9, dt_minute = 30,
               dt_second = 7, dt_microsecond = 900 \<rparr>"

definition ex_dt_c :: datetime where
  "ex_dt_c = \<lparr> dt_year = 2026, dt_month = 1, dt_day = 5, dt_hour = 9, dt_minute = 30,
               dt_second = 8, dt_microsecond = 0 \<rparr>"

section \<open>Files\<close>

text \<open>
  A path is the list of its components; \<open>str(path)\<close> joins them with \<open>/\<close>. A file holds
  either the JSON text of a request (\<open>json.dumps(asdict(req))\<close>, which \<open>json.loads\<close> reads
  back) or plain text. The file system is an association list from paths to contents.

  The primitive operations are those of the operating system: opening a file for
  writing truncates it, written data then fills it, \<open>rename\<close> moves a file over another
  in one step, \<open>unlink\<close> removes it. \<open>Path.write_text\<close> opens the target itself in mode
  \<open>w\<close> and writes the data: a truncation followed by a write. No function of the
  supervisor renames a file. The operations on the store's files are taken to succeed.
\<close>

type_synonym path = "pystr list"

definition str_path :: "path \<Rightarrow> pystr" where
  "str_path p = join (u ''/'') p"

datatype content = Json upgrade_request | Text pystr

datatype fs_op = Truncate path | WriteData path content | Rename path path | Unlink path

type_synonym fs = "(path \<times> content) list"

fun apply_op :: "fs \<Rightarrow> fs_op \<Rightarrow> fs" where
  "apply_op fs (Truncate p) = AList.update p (Text []) fs"
| "apply_op fs (WriteData p c) = AList.update p c fs"
| "apply_op fs (Rename p q) =
     (case map_of fs p of None \<Rightarrow> fs | Some c \<Rightarrow> AList.update q c (AList.delete p fs))"
| "apply_op fs (Unlink p) = AList.delete p fs"

definition apply_ops :: "fs \<Rightarrow> fs_op list \<Rightarrow> fs" where
  "apply_ops fs ops = foldl apply_op fs ops"

text \<open>The states of the file system a reader can observe while the operations run.\<close>

fun observable :: "fs \<Rightarrow> fs_op list \<Rightarrow> fs list" where
  "observable fs [] = [fs]"
| "observable fs (op # ops) = fs # observable (apply_op fs op) ops"

definition write_text_ops :: "path \<Rightarrow> content \<Rightarrow> fs_op list" where
  "write_text_ops p c = [Truncate p, WriteData p c]"

section \<open>The supervisor's world\<close>

text \<open>
  Time is counted in clock ticks of one microsecond. What the world outside the
  supervisor answers is a function of the moment it is asked: whether an executable is
  on the search path, how a child process behaves, whether the service can be launched
  and whether a process is alive. Looking an executable up takes one tick, so the clock
  moves in every round of a loop; a child process takes the time the world gives it, and
  the clock is not read in fractions of a tick.

  \<open>clock_lag t\<close> is the number of ticks that pass between two readings of the clock
  in one round of the develop-verify loop, the first of them made at \<open>t\<close>.
  \<open>whole_seconds d t\<close> is the value of \<open>int(d - time.time())\<close> when the clock reads
  \<open>t\<close>: the whole seconds from \<open>t\<close> to \<open>d\<close> as double-precision arithmetic gives them,
  negative when \<open>d\<close> has passed. Exact arithmetic gives \<open>(d - t) div tps\<close>; the rounding
  of the difference can give one second less or more, so the value is left to the
  world.

  \<open>proc_at t cmd cwd\<close> is what a child started at \<open>t\<close> does: it cannot be started
  (\<open>StartFails\<close> with the text of the fault) or it runs for a number of ticks and ends
  with a return code, its output and its error output. \<open>popen_at t\<close> is the launch of
  the service: a fault raised by opening the log or by \<open>Popen\<close>, or the id of the new
  process. \<open>term_at t pid\<close> is what signal 15 does to a process: \<open>killpg\<close> raises, or
  the process ends after a number of ticks. An exception of the source is a value
  \<open>Inl\<close> holding its text.
\<close>

definition tps :: nat where
  "tps = 1000000"

datatype proc_behaviour =
    StartFails pystr
  | Runs nat int pystr pystr

datatype term_behaviour =
    KillFails
  | ExitsAfter nat

record env =
  db :: unicode_db
  utc_iso :: "nat \<Rightarrow> pystr"
  which_at :: "nat \<Rightarrow> pystr \<Rightarrow> bool"
  proc_at :: "nat \<Rightarrow> pystr list \<Rightarrow> path \<Rightarrow> proc_behaviour"
  popen_at :: "nat \<Rightarrow> pystr + nat"
  alive_at :: "nat \<Rightarrow> nat \<Rightarrow> bool"
  term_at :: "nat \<Rightarrow> nat \<Rightarrow> term_behaviour"
  clock_lag :: "nat \<Rightarrow> nat"
  whole_seconds :: "nat \<Rightarrow> nat \<Rightarrow> int"

record config =
  workspace :: path
  repo_root :: path
  service_cmd :: pystr
  build_timeout_s :: nat
  health_grace_s :: nat

text \<open>
  The events of a run, in the order they happen: operations on files, child processes
  run to completion (\<open>subprocess.run\<close>, with the moment it starts, the command, the
  working directory and the timeout in seconds), the launch of the service, signals
  sent to a process group, and two markers of the develop-verify loop: the call of the
  generation step with its prompt and timeout, and the result \<open>_verify\<close> returned.
\<close>

datatype event =
    Fs fs_op
  | Run nat "pystr list" path nat
  | Popen nat pystr path nat
  | Killpg nat nat nat
  | CallCodex nat pystr path nat
  | Verified bool "pystr list"

record sup_state =
  now :: nat
  files :: fs
  service_proc :: "nat option"
  trace :: "event list"

definition emit :: "event list \<Rightarrow> sup_state \<Rightarrow> sup_state" where
  "emit evs st = st\<lparr>trace := trace st @ evs\<rparr>"

definition advance :: "nat \<Rightarrow> sup_state \<Rightarrow> sup_state" where
  "advance d st = st\<lparr>now := now st + d\<rparr>"

definition do_ops :: "fs_op list \<Rightarrow> sup_state \<Rightarrow> sup_state" where
  "do_ops ops st = st\<lparr>files := apply_ops (files st) ops, trace := trace st @ map Fs ops\<rparr>"

definition write_text :: "path \<Rightarrow> content \<Rightarrow> sup_state \<Rightarrow> sup_state" where
  "write_text p c st = do_ops (write_text_ops p c) st"

section \<open>Task store\<close>

text \<open>
  \<^verbatim>\<open>
  self.root = workspace / "upgrades"
  self.queue = self.root / "queue";  self.tasks = self.root / "tasks"
  self.logs = self.root / "logs";    self.backups = self.root / "backups"
  self.worktrees = self.root / "worktrees"
  \<close>
\<close>

definition store_root :: "config \<Rightarrow> path" where
  "store_root cfg = workspace cfg @ [u ''upgrades'']"

definition queue :: "config \<Rightarrow> path" where
  "queue cfg = store_root cfg @ [u ''queue'']"

definition tasks :: "config \<Rightarrow> path" where
  "tasks cfg = store_root cfg @ [u ''tasks'']"

definition logs :: "config \<Rightarrow> path" where
  "logs cfg = store_root cfg @ [u ''logs'']"

definition backups :: "config \<Rightarrow> path" where
  "backups cfg = store_root cfg @ [u ''backups'']"

definition worktrees :: "config \<Rightarrow> path" where
  "worktrees cfg = store_root cfg @ [u ''worktrees'']"

definition nl :: pystr where
  "nl = [10]"

text \<open>
  \<^verbatim>\<open>
  def write_task_md(self, req, status, notes=None):
      notes = notes or []
      content = [f"# Upgrade Task {req.id}", "", f"- Title: {req.title}",
                 f"- Scope: {req.scope}", f"- Requested By: {req.requested_by}",
                 f"- Created At (UTC): {req.created_at}",
                 f"- Last Updated (UTC): {_utc_now()}", f"- Status: {status}",
                 "", "## Prompt", "", req.prompt, "", "## Notes"]
      for n in notes:
          content.append(f"- {n}")
      (self.tasks / f"{req.id}.md").write_text("\n".join(content) + "\n", encoding="utf-8")
  \<close>
\<close>

definition task_md_lines :: "upgrade_request \<Rightarrow> pystr \<Rightarrow> pystr list \<Rightarrow> pystr \<Rightarrow> pystr list" where
  "task_md_lines req status notes updated =
     [u ''# Upgrade Task '' @ req_id req,
      [],
      u ''- Title: '' @ title req,
      u ''- Scope: '' @ scope req,
      u ''- Requested By: '' @ requested_by req,
      u ''- Created At (UTC): '' @ created_at req,
      u ''- Last Updated (UTC): '' @ updated,
      u ''- Status: '' @ status,
      [],
      u ''## Prompt'',
      [],
      prompt req,
      [],
      u ''## Notes'']
     @ map (\<lambda>n. u ''- '' @ n) notes"

definition task_md_text :: "upgrade_request \<Rightarrow> pystr \<Rightarrow> pystr list \<Rightarrow> pystr \<Rightarrow> pystr" where
  "task_md_text req status notes updated = join nl (task_md_lines req status notes updated) @ nl"

definition task_md_path :: "config \<Rightarrow> upgrade_request \<Rightarrow> path" where
  "task_md_path cfg req = tasks cfg @ [req_id req @ u ''.md'']"

definition write_task_md_ops :: "config \<Rightarrow> upgrade_request \<Rightarrow> pystr \<Rightarrow> pystr list \<Rightarrow> pystr \<Rightarrow> fs_op list" where
  "write_task_md_ops cfg req status notes updated =
     write_text_ops (task_md_path cfg req) (Text (task_md_text req status notes updated))"

definition write_task_md ::
  "env \<Rightarrow> config \<Rightarrow> upgrade_request \<Rightarrow> pystr \<Rightarrow> pystr list \<Rightarrow> sup_state \<Rightarrow> sup_state" where
  "write_task_md e cfg req status notes st =
     do_ops (write_task_md_ops cfg req status notes (utc_iso e (now st))) st"

text \<open>
  \<^verbatim>\<open>
  def enqueue(self, req):
      req_path = self.queue / f"{req.id}.json"
      req_path.write_text(json.dumps(asdict(req), ensure_ascii=False, indent=2), encoding="utf-8")
      self.write_task_md(req, status="QUEUED", notes=["Task queued."])
      return req_path
  \<close>
\<close>

definition req_path :: "config \<Rightarrow> upgrade_request \<Rightarrow> path" where
  "req_path cfg req = queue cfg @ [req_id req @ u ''.json'']"

definition enqueue_ops :: "config \<Rightarrow> upgrade_request \<Rightarrow> pystr \<Rightarrow> fs_op list" where
  "enqueue_ops cfg req updated =
     write_text_ops (req_path cfg req) (Json req)
     @ write_task_md_ops cfg req (u ''QUEUED'') [u ''Task queued.''] updated"

definition enqueue :: "env \<Rightarrow> config \<Rightarrow> upgrade_request \<Rightarrow> sup_state \<Rightarrow> path \<times> sup_state" where
  "enqueue e cfg req st =
     (req_path cfg req, do_ops (enqueue_ops cfg req (utc_iso e (now st))) st)"

text \<open>
  \<^verbatim>\<open>
  def list_pending(self):
      return sorted(self.queue.glob("*.json"), key=lambda p: p.name)
  def load(self, path):
      data = json.loads(path.read_text(encoding="utf-8"))
      return UpgradeRequest(**data)
  def pop(self, path):
      if path.exists():
          path.unlink()
  \<close>
\<close>

definition endswith :: "pystr \<Rightarrow> pystr \<Rightarrow> bool" where
  "endswith s suffix = (length suffix \<le> length s \<and> drop (length s - length suffix) s = suffix)"

definition in_queue :: "config \<Rightarrow> path \<Rightarrow> bool" where
  "in_queue cfg p = (p \<noteq> [] \<and> butlast p = queue cfg)"

definition list_pending :: "config \<Rightarrow> sup_state \<Rightarrow> path list" where
  "list_pending cfg st =
     sort_key last (filter (\<lambda>p. in_queue cfg p \<and> endswith (last p) (u ''.json'')) (map fst (files st)))"

definition load :: "path \<Rightarrow> sup_state \<Rightarrow> pystr + upgrade_request" where
  "load p st =
     (case map_of (files st) p of
        None \<Rightarrow> Inl (u ''FileNotFoundError'')
      | Some (Text t) \<Rightarrow> Inl (u ''JSONDecodeError'')
      | Some (Json r) \<Rightarrow> Inr r)"

definition pop :: "path \<Rightarrow> sup_state \<Rightarrow> sup_state" where
  "pop p st = (if map_of (files st) p \<noteq> None then do_ops [Unlink p] st else st)"

section \<open>External commands\<close>

text \<open>
  \<^verbatim>\<open>
  def _run_cmd(cmd, cwd, timeout, check=True):
      try:
          proc = subprocess.run(cmd, cwd=cwd, timeout=timeout, capture_output=True,
                                text=True, check=False)
      except subprocess.TimeoutExpired:
          return False, f"Timeout after {timeout}s: {' '.join(cmd)}"
      except Exception as e:
          return False, f"Command failed to start ({' '.join(cmd)}): {e}"
      output = (proc.stdout or "") + ("\nSTDERR:\n" + proc.stderr if proc.stderr else "")
      if check and proc.returncode != 0:
          return False, output or f"Exit code {proc.returncode}"
      return proc.returncode == 0, output
  \<close>
  A child that would run longer than the timeout is stopped when the timeout has passed.
\<close>

definition run_cmd ::
  "env \<Rightarrow> pystr list \<Rightarrow> path \<Rightarrow> nat \<Rightarrow> bool \<Rightarrow> sup_state \<Rightarrow> (bool \<times> pystr) \<times> sup_state" where
  "run_cmd e cmd cwd timeout check st =
     (let st1 = emit [Run (now st) cmd cwd timeout] st in
      case proc_at e (now st) cmd cwd of
        StartFails err \<Rightarrow>
          ((False, u ''Command failed to start ('' @ join (u '' '') cmd @ u ''): '' @ err), st1)
      | Runs d returncode out err \<Rightarrow>
          if timeout * tps < d
          then ((False, u ''Timeout after '' @ str_nat timeout @ u ''s: '' @ join (u '' '') cmd),
                advance (timeout * tps) st1)
          else
            let output = out @ (if err \<noteq> [] then nl @ u ''STDERR:'' @ nl @ err else []) in
            if check \<and> returncode \<noteq> 0
            then ((False, if output \<noteq> [] then output else u ''Exit code '' @ str_int returncode),
                  advance d st1)
            else ((returncode = 0, output), advance d st1))"

text \<open>\<open>shutil.which(name) is not None\<close>.\<close>

definition which :: "env \<Rightarrow> pystr \<Rightarrow> sup_state \<Rightarrow> bool \<times> sup_state" where
  "which e name st = (which_at e (now st) name, advance 1 st)"

text \<open>
  \<^verbatim>\<open>
  def _trim(text, limit):
      if len(text) <= limit:
          return text
      return text[:limit] + f"\n... (truncated {len(text) - limit} chars)"
  \<close>
\<close>

definition trim :: "pystr \<Rightarrow> nat \<Rightarrow> pystr" where
  "trim text limit =
     (if length text \<le> limit then text
      else take limit text @ nl @ u ''... (truncated '' @ str_nat (length text - limit) @ u '' chars)'')"

text \<open>
  \<^verbatim>\<open>
  def _run_optional_codex(self, prompt, cwd, timeout):
      if shutil.which("codex") is None:
          return False, "codex CLI not installed"
      cmd = ["codex", "exec", "--sandbox", "workspace-write", "--ask-for-approval", "never", prompt]
      return self._run_cmd(cmd, cwd=cwd, timeout=timeout, check=False)
  \<close>
\<close>

definition codex_cmd :: "pystr \<Rightarrow> pystr list" where
  "codex_cmd p = [u ''codex'', u ''exec'', u ''--sandbox'', u ''workspace-write'',
                  u ''--ask-for-approval'', u ''never'', p]"

definition run_optional_codex ::
  "env \<Rightarrow> pystr \<Rightarrow> path \<Rightarrow> nat \<Rightarrow> sup_state \<Rightarrow> (bool \<times> pystr) \<times> sup_state" where
  "run_optional_codex e p cwd timeout st =
     (case which e (u ''codex'') (emit [CallCodex (now st) p cwd timeout] st) of
        (found, st1) \<Rightarrow>
          if \<not> found then ((False, u ''codex CLI not installed''), st1)
          else run_cmd e (codex_cmd p) cwd timeout False st1)"

text \<open>
  \<^verbatim>\<open>
  def _repo_is_clean(self):
      ok, out = self._run_cmd(["git", "status", "--porcelain"], cwd=self.repo_root, timeout=30, check=False)
      if not ok:
          return False, "failed to read git status"
      dirty = out.strip()
      if dirty:
          return False, dirty[:500]
      return True, "clean"
  \<close>
\<close>

definition repo_is_clean :: "env \<Rightarrow> config \<Rightarrow> sup_state \<Rightarrow> (bool \<times> pystr) \<times> sup_state" where
  "repo_is_clean e cfg st =
     (case run_cmd e [u ''git'', u ''status'', u ''--porcelain''] (repo_root cfg) 30 False st of
        ((ok, out), st1) \<Rightarrow>
          if \<not> ok then ((False, u ''failed to read git status''), st1)
          else let dirty = strip (db e) out in
               if dirty \<noteq> [] then ((False, take 500 dirty), st1)
               else ((True, u ''clean''), st1))"

section \<open>Service process\<close>

text \<open>
  \<^verbatim>\<open>
  def _terminate_process(self, proc):
      if proc.poll() is not None:
          return
      try:
          os.killpg(proc.pid, 15)
          proc.wait(timeout=20)
      except Exception:
          try:
              os.killpg(proc.pid, 9)
          except Exception:
              pass
  def _stop_service(self):
      if not self.service_proc:
          return
      self._terminate_process(self.service_proc)
      self.service_proc = None
  \<close>
\<close>

definition terminate_process :: "env \<Rightarrow> nat \<Rightarrow> sup_state \<Rightarrow> sup_state" where
  "terminate_process e pid st =
     (if \<not> alive_at e (now st) pid then st
      else
        let st1 = emit [Killpg (now st) pid 15] st in
        case term_at e (now st) pid of
          KillFails \<Rightarrow> emit [Killpg (now st1) pid 9] st1
        | ExitsAfter d \<Rightarrow>
            if d \<le> 20 * tps then advance d st1
            else (let st2 = advance (20 * tps) st1 in emit [Killpg (now st2) pid 9] st2))"

definition stop_service :: "env \<Rightarrow> sup_state \<Rightarrow> sup_state" where
  "stop_service e st =
     (case service_proc st of
        None \<Rightarrow> st
      | Some pid \<Rightarrow> (terminate_process e pid st)\<lparr>service_proc := None\<rparr>)"

text \<open>
  \<^verbatim>\<open>
  def _start_service(self):
      self.service_log.parent.mkdir(parents=True, exist_ok=True)
      logf = self.service_log.open("a", encoding="utf-8")
      self.service_proc = subprocess.Popen(self.service_cmd, cwd=self.repo_root, shell=True,
                                           stdout=logf, stderr=logf, text=True, start_new_session=True)
      time.sleep(self.health_grace_s)
      healthy = self.service_proc.poll() is None
      return healthy
  def _ensure_service_running(self):
      if self.service_proc is None or self.service_proc.poll() is not None:
          self._start_service()
  \<close>
  Opening the log and launching the process can raise; the fault reaches the caller and
  the handle is left as it was.
\<close>

definition start_service :: "env \<Rightarrow> config \<Rightarrow> sup_state \<Rightarrow> (pystr + bool) \<times> sup_state" where
  "start_service e cfg st =
     (case popen_at e (now st) of
        Inl err \<Rightarrow> (Inl err, st)
      | Inr pid \<Rightarrow>
          let st1 = emit [Popen (now st) (service_cmd cfg) (repo_root cfg) pid] st;
              st2 = advance (health_grace_s cfg * tps) (st1\<lparr>service_proc := Some pid\<rparr>)
          in (Inr (alive_at e (now st2) pid), st2))"

definition ensure_service_running :: "env \<Rightarrow> config \<Rightarrow> sup_state \<Rightarrow> (pystr + unit) \<times> sup_state" where
  "ensure_service_running e cfg st =
     (if (case service_proc st of None \<Rightarrow> True | Some pid \<Rightarrow> \<not> alive_at e (now st) pid)
      then (case start_service e cfg st of
              (Inl err, st1) \<Rightarrow> (Inl err, st1)
            | (Inr healthy, st1) \<Rightarrow> (Inr (), st1))
      else (Inr (), st))"

section \<open>Verification\<close>

text \<open>
  \<^verbatim>\<open>
  def _verify(self, cwd):
      notes = []
      checks = [("compile", ["python3", "-m", "compileall", "nanobot"]),
                ("ruff", ["ruff", "check", "."]),
                ("pytest", ["pytest", "-q"])]
      executed = 0
      for name, cmd in checks:
          if shutil.which(cmd[0]) is None:
              notes.append(f"Skipped {name}: '{cmd[0]}' not found.")
              continue
          executed += 1
          ok, out = self._run_cmd(cmd, cwd=cwd, timeout=600, check=False)
          if not ok:
              notes.append(f"{name} failed.")
              notes.append(self._trim(out, 1200))
              return False, notes
          notes.append(f"{name} passed.")
      if executed == 0:
          notes.append("No verification tools available.")
          return False, notes
      return True, notes
  \<close>
  Every command of \<open>checks\<close> has a first word, so \<open>cmd[0]\<close> is \<open>hd cmd\<close>.
\<close>

definition checks :: "(pystr \<times> pystr list) list" where
  "checks = [(u ''compile'', [u ''python3'', u ''-m'', u ''compileall'', u ''nanobot'']),
             (u ''ruff'', [u ''ruff'', u ''check'', u ''.'']),
             (u ''pytest'', [u ''pytest'', u ''-q''])]"

fun verify_loop ::
  "env \<Rightarrow> path \<Rightarrow> (pystr \<times> pystr list) list \<Rightarrow> nat \<Rightarrow> pystr list \<Rightarrow> sup_state
     \<Rightarrow> (bool \<times> pystr list) \<times> sup_state" where
  "verify_loop e cwd [] executed notes st =
     (if executed = 0 then ((False, notes @ [u ''No verification tools available.'']), st)
      else ((True, notes), st))"
| "verify_loop e cwd ((name, cmd) # rest) executed notes st =
     (case which e (hd cmd) st of
        (found, st1) \<Rightarrow>
          if \<not> found
          then verify_loop e cwd rest executed
                 (notes @ [u ''Skipped '' @ name @ u '': '' @ [39] @ hd cmd @ [39] @ u '' not found.'']) st1
          else
            (case run_cmd e cmd cwd 600 False st1 of
               ((ok, out), st2) \<Rightarrow>
                 if \<not> ok then ((False, notes @ [name @ u '' failed.'', trim out 1200]), st2)
                 else verify_loop e cwd rest (executed + 1) (notes @ [name @ u '' passed.'']) st2))"

definition verify :: "env \<Rightarrow> path \<Rightarrow> sup_state \<Rightarrow> (bool \<times> pystr list) \<times> sup_state" where
  "verify e cwd st = verify_loop e cwd checks 0 [] st"

section \<open>Develop-verify loop\<close>

text \<open>
  \<^verbatim>\<open>
  def _develop_and_verify(self, req, wt_dir):
      deadline = time.time() + self.build_timeout_s
      notes = []; feedback = ""; attempt = 0
      while time.time() < deadline:
          attempt += 1
          notes.append(f"Attempt {attempt}: coding in sandbox.")
          prompt = ("You are upgrading nanobot core. "
                    "Rules: make minimal safe changes, keep service stable, and run quick self-checks. "
                    "Task:\n" f"{req.prompt}\n\n"
                    "If previous attempt failed, fix based on this feedback:\n"
                    f"{feedback or '(none)'}")
          codex_ok, codex_out = self._run_optional_codex(
              prompt, wt_dir, timeout=min(900, max(60, int(deadline - time.time()))))
          notes.append("Codex exec finished." if codex_ok else f"Codex exec issue: {codex_out[:300]}")
          verify_ok, verify_notes = self._verify(wt_dir)
          notes.extend(verify_notes)
          if verify_ok:
              notes.append("Verification passed.")
              return True, notes
          feedback = "\n".join(verify_notes[-8:])
      notes.append("Timeout exceeded (30 minutes) before successful verification.")
      return False, notes
  \<close>
  The clock is read twice in a round: in the test of the loop, and again in the
  argument of the call of the generation step, \<open>clock_lag\<close> ticks later. The timeout of
  the call is computed from the second reading, \<open>whole_seconds\<close> being the value of
  \<open>int(deadline - time.time())\<close> there.
\<close>

definition build_prompt :: "upgrade_request \<Rightarrow> pystr \<Rightarrow> pystr" where
  "build_prompt req feedback =
     u ''You are upgrading nanobot core. ''
     @ u ''Rules: make minimal safe changes, keep service stable, and run quick self-checks. ''
     @ u ''Task:'' @ nl
     @ prompt req @ nl @ nl
     @ u ''If previous attempt failed, fix based on this feedback:'' @ nl
     @ (if feedback \<noteq> [] then feedback else u ''(none)'')"

text \<open>\<open>min(900, max(60, s))\<close>.\<close>

definition codex_timeout :: "int \<Rightarrow> nat" where
  "codex_timeout s = nat (min 900 (max 60 s))"

text \<open>One round of the loop: \<open>Inl\<close> is the value returned, \<open>Inr\<close> the variables of the next round.\<close>

definition attempt_body ::
  "env \<Rightarrow> upgrade_request \<Rightarrow> path \<Rightarrow> nat \<Rightarrow> nat \<Rightarrow> pystr list \<Rightarrow> pystr \<Rightarrow> sup_state
     \<Rightarrow> ((bool \<times> pystr list) + (nat \<times> pystr list \<times> pystr)) \<times> sup_state" where
  "attempt_body e req wt_dir deadline attempt notes feedback st =
     (let attempt = attempt + 1;
          notes = notes @ [u ''Attempt '' @ str_nat attempt @ u '': coding in sandbox.''];
          p = build_prompt req feedback;
          st0 = advance (clock_lag e (now st)) st;
          timeout = codex_timeout (whole_seconds e deadline (now st0))
      in case run_optional_codex e p wt_dir timeout st0 of
           ((codex_ok, codex_out), st1) \<Rightarrow>
             let notes = notes @ [if codex_ok then u ''Codex exec finished.''
                                  else u ''Codex exec issue: '' @ take 300 codex_out]
             in case verify e wt_dir st1 of
                  ((verify_ok, verify_notes), st2) \<Rightarrow>
                    let st3 = emit [Verified verify_ok verify_notes] st2;
                        notes = notes @ verify_notes
                    in if verify_ok then (Inl (True, notes @ [u ''Verification passed.'']), st3)
                       else (Inr (attempt, notes, join nl (lastn 8 verify_notes)), st3))"

function dv_loop ::
  "env \<Rightarrow> upgrade_request \<Rightarrow> path \<Rightarrow> nat \<Rightarrow> nat \<Rightarrow> pystr list \<Rightarrow> pystr \<Rightarrow> sup_state
     \<Rightarrow> (bool \<times> pystr list) \<times> sup_state" where
  "dv_loop e req wt_dir deadline attempt notes feedback st =
     (if now st < deadline then
        (case attempt_body e req wt_dir deadline attempt notes feedback st of
           (Inl result, st1) \<Rightarrow> (result, st1)
         | (Inr (attempt1, notes1, feedback1), st1) \<Rightarrow>
             dv_loop e req wt_dir deadline attempt1 notes1 feedback1 st1)
      else ((False, notes @ [u ''Timeout exceeded (30 minutes) before successful verification.'']), st))"
  by pat_completeness auto
termination
proof -
  have run: "now st \<le> now (snd (run_cmd e cmd cwd timeout check st))"
    for e cmd cwd timeout check st
    by (simp add: run_cmd_def emit_def advance_def Let_def split: proc_behaviour.split)
  have loop: "now st \<le> now (snd (verify_loop e cwd cs executed ns st))"
    for e cwd cs executed ns st
  proof (induction e cwd cs executed ns st rule: verify_loop.induct)
    case (1 e cwd executed ns st)
    show ?case by simp
  next
    case (2 e cwd name cmd rest executed ns st)
    let ?st1 = "advance 1 st"
    have w: "which e (hd cmd) st = (which_at e (now st) (hd cmd), ?st1)"
      by (simp add: which_def)
    have s1: "now st \<le> now ?st1" by (simp add: advance_def)
    show ?case
    proof (cases "which_at e (now st) (hd cmd)")
      case False
      then show ?thesis
        using "2.IH"(1)[OF w[symmetric]] s1 by (simp add: w)
    next
      case True
      obtain ok out st2 where r: "run_cmd e cmd cwd 600 False ?st1 = ((ok, out), st2)"
        by (metis surj_pair)
      have s2: "now ?st1 \<le> now st2"
        using run[of ?st1 e cmd cwd 600 False] r by simp
      show ?thesis
      proof (cases ok)
        case False
        then show ?thesis using True r s1 s2 by (simp add: w)
      next
        case ok: True
        have "now st2 \<le> now (snd (verify_loop e cwd rest (executed + 1) (ns @ [name @ u '' passed.'']) st2))"
          using "2.IH"(2)[OF w[symmetric] _ r[symmetric]] True ok by simp
        then show ?thesis using True ok r s1 s2 by (simp add: w)
      qed
    qed
  qed
  have codex: "now st < now (snd (run_optional_codex e p cwd timeout st))"
    for e p cwd timeout st
    using run[of "advance 1 (emit [CallCodex (now st) p cwd timeout] st)" e "codex_cmd p" cwd timeout False]
    by (simp add: run_optional_codex_def which_def advance_def emit_def)
  have body: "now st < now (snd (attempt_body e req wt_dir deadline attempt ns feedback st))"
    for e req wt_dir deadline attempt ns feedback st
  proof -
    let ?p = "build_prompt req feedback"
    let ?st0 = "advance (clock_lag e (now st)) st"
    let ?t = "codex_timeout (whole_seconds e deadline (now ?st0))"
    obtain r1 st1 where c: "run_optional_codex e ?p wt_dir ?t ?st0 = (r1, st1)"
      by (metis surj_pair)
    obtain r2 st2 where v: "verify e wt_dir st1 = (r2, st2)"
      by (metis surj_pair)
    have "now ?st0 < now st1" using codex[of ?st0 e ?p wt_dir ?t] c by simp
    then have "now st < now st1" by (simp add: advance_def)
    moreover have "now st1 \<le> now st2" using loop[of st1 e wt_dir checks 0 "[]"] v by (simp add: verify_def)
    ultimately show ?thesis
      using c v by (auto simp: attempt_body_def Let_def emit_def split: prod.splits)
  qed
  show ?thesis
  proof (relation "measure (\<lambda>(e, req, wt_dir, deadline, attempt, ns, feedback, st). deadline - now st)")
    show "wf (measure (\<lambda>(e, req, wt_dir, deadline, attempt, ns, feedback, st). deadline - now st))"
      by simp
  next
    fix e req wt_dir deadline attempt ns feedback st x st1 y attempt1 z ns1 feedback1
    assume "now st < deadline"
      and "(x, st1) = attempt_body e req wt_dir deadline attempt ns feedback st"
    then show "((e, req, wt_dir, deadline, attempt1, ns1, feedback1, st1),
                 e, req, wt_dir, deadline, attempt, ns, feedback, st)
               \<in> measure (\<lambda>(e, req, wt_dir, deadline, attempt, ns, feedback, st). deadline - now st)"
      using body[of st e req wt_dir deadline attempt ns feedback]
      by (metis (no_types, lifting) case_prod_conv diff_less_mono2 in_measure snd_conv)
  qed
qed

definition develop_and_verify ::
  "env \<Rightarrow> config \<Rightarrow> upgrade_request \<Rightarrow> path \<Rightarrow> sup_state \<Rightarrow> (bool \<times> pystr list) \<times> sup_state" where
  "develop_and_verify e cfg req wt_dir st =
     dv_loop e req wt_dir (now st + build_timeout_s cfg * tps) 0 [] [] st"

section \<open>Deploy and rollback\<close>

text \<open>
  \<^verbatim>\<open>
  def _deploy(self, req, wt_dir):
      notes = []
      backup_patch = self.store.backups / f"{req.id}-forward.patch"
      rollback_patch = self.store.backups / f"{req.id}-rollback.patch"
      ok, diff = self._run_cmd(["git", "diff", "--binary", "HEAD"], cwd=wt_dir, timeout=120, check=False)
      if not ok:
          return False, ["Failed to export candidate patch.", self._trim(diff, 600)]
      if not diff.strip():
          return False, ["No code changes were produced."]
      backup_patch.write_text(diff, encoding="utf-8")
      notes.append(f"Saved candidate patch: {backup_patch}")
      ok, out = self._run_cmd(["git", "apply", "--index", str(backup_patch)], cwd=self.repo_root, timeout=120, check=False)
      if not ok:
          return False, ["Failed to apply candidate patch to live repo.", self._trim(out, 800)]
      ok, reverse = self._run_cmd(["git", "diff", "--binary", "--cached"], cwd=self.repo_root, timeout=120, check=False)
      if ok and reverse.strip():
          rollback_patch.write_text(reverse, encoding="utf-8")
          notes.append(f"Saved rollback patch: {rollback_patch}")
      old_proc = self.service_proc
      self._stop_service()
      started = self._start_service()
      if started:
          notes.append("New service started successfully; cutover complete.")
          return True, notes
      notes.append("New service failed health check; starting rollback.")
      self._run_cmd(["git", "apply", "-R", "--index", str(backup_patch)], cwd=self.repo_root, timeout=120, check=False)
      self._stop_service()
      rollback_started = self._start_service()
      if rollback_started:
          notes.append("Rollback succeeded; previous service restored.")
      else:
          notes.append("Rollback failed to restore service automatically; manual intervention needed.")
      if old_proc and old_proc.poll() is None:
          self._terminate_process(old_proc)
      return False, notes
  \<close>
  \<open>Inl\<close> is a fault raised by \<open>_start_service\<close>, which nothing in \<open>_deploy\<close> catches.
  \<open>cutover\<close> is the part from \<open>old_proc = self.service_proc\<close> on, \<open>rollback\<close> the part
  after the new service failed its health check.
\<close>

definition backup_patch :: "config \<Rightarrow> upgrade_request \<Rightarrow> path" where
  "backup_patch cfg req = backups cfg @ [req_id req @ u ''-forward.patch'']"

definition rollback_patch :: "config \<Rightarrow> upgrade_request \<Rightarrow> path" where
  "rollback_patch cfg req = backups cfg @ [req_id req @ u ''-rollback.patch'']"

definition apply_cmd :: "config \<Rightarrow> upgrade_request \<Rightarrow> pystr list" where
  "apply_cmd cfg req = [u ''git'', u ''apply'', u ''--index'', str_path (backup_patch cfg req)]"

definition reverse_cmd :: "config \<Rightarrow> upgrade_request \<Rightarrow> pystr list" where
  "reverse_cmd cfg req = [u ''git'', u ''apply'', u ''-R'', u ''--index'', str_path (backup_patch cfg req)]"

definition rollback ::
  "env \<Rightarrow> config \<Rightarrow> upgrade_request \<Rightarrow> nat option \<Rightarrow> pystr list \<Rightarrow> sup_state
     \<Rightarrow> (pystr + bool \<times> pystr list) \<times> sup_state" where
  "rollback e cfg req old_proc notes st =
     (let notes = notes @ [u ''New service failed health check; starting rollback.''] in
      case run_cmd e (reverse_cmd cfg req) (repo_root cfg) 120 False st of
        (r, st1) \<Rightarrow>
          (case start_service e cfg (stop_service e st1) of
             (Inl err, st2) \<Rightarrow> (Inl err, st2)
           | (Inr rollback_started, st2) \<Rightarrow>
               let notes = notes @
                     [if rollback_started then u ''Rollback succeeded; previous service restored.''
                      else u ''Rollback failed to restore service automatically; manual intervention needed.''];
                   st3 = (case old_proc of
                            None \<Rightarrow> st2
                          | Some pid \<Rightarrow> if alive_at e (now st2) pid then terminate_process e pid st2 else st2)
               in (Inr (False, notes), st3)))"

definition cutover ::
  "env \<Rightarrow> config \<Rightarrow> upgrade_request \<Rightarrow> pystr list \<Rightarrow> sup_state
     \<Rightarrow> (pystr + bool \<times> pystr list) \<times> sup_state" where
  "cutover e cfg req notes st =
     (let old_proc = service_proc st in
      case start_service e cfg (stop_service e st) of
        (Inl err, st1) \<Rightarrow> (Inl err, st1)
      | (Inr started, st1) \<Rightarrow>
          if started
          then (Inr (True, notes @ [u ''New service started successfully; cutover complete.'']), st1)
          else rollback e cfg req old_proc notes st1)"

definition deploy ::
  "env \<Rightarrow> config \<Rightarrow> upgrade_request \<Rightarrow> path \<Rightarrow> sup_state
     \<Rightarrow> (pystr + bool \<times> pystr list) \<times> sup_state" where
  "deploy e cfg req wt_dir st =
     (case run_cmd e [u ''git'', u ''diff'', u ''--binary'', u ''HEAD''] wt_dir 120 False st of
        ((ok, diff), st1) \<Rightarrow>
          if \<not> ok then (Inr (False, [u ''Failed to export candidate patch.'', trim diff 600]), st1)
          else if strip (db e) diff = [] then (Inr (False, [u ''No code changes were produced.'']), st1)
          else
            let st2 = write_text (backup_patch cfg req) (Text diff) st1;
                notes = [u ''Saved candidate patch: '' @ str_path (backup_patch cfg req)]
            in case run_cmd e (apply_cmd cfg req) (repo_root cfg) 120 False st2 of
                 ((ok, out), st3) \<Rightarrow>
                   if \<not> ok
                   then (Inr (False, [u ''Failed to apply candidate patch to live repo.'', trim out 800]), st3)
                   else
                     (case run_cmd e [u ''git'', u ''diff'', u ''--binary'', u ''--cached'']
                             (repo_root cfg) 120 False st3 of
                        ((ok, reverse), st4) \<Rightarrow>
                          if ok \<and> strip (db e) reverse \<noteq> []
                          then cutover e cfg req
                                 (notes @ [u ''Saved rollback patch: '' @ str_path (rollback_patch cfg req)])
                                 (write_text (rollback_patch cfg req) (Text reverse) st4)
                          else cutover e cfg req notes st4))"

section \<open>Processing one task\<close>

text \<open>
  \<^verbatim>\<open>
  def _process(self, req):
      if req.scope != "core":
          self.store.write_task_md(req, status="REJECTED",
              notes=["Non-core task: should be handled by skill installation/update pipeline."])
          return
      clean, detail = self._repo_is_clean()
      if not clean:
          self.store.write_task_md(req, status="FAILED", notes=[f"Repo not clean: {detail}"])
          return
      self.store.write_task_md(req, status="IN_PROGRESS", notes=["Creating isolated worktree."])
      branch = f"codex/upgrade-{_slug(req.title)}-{req.id[-6:]}"
      wt_dir = self.store.worktrees / req.id
      self._run_cmd(["git", "worktree", "add", "-B", branch, str(wt_dir), "HEAD"], cwd=self.repo_root, timeout=120)
      try:
          ok, notes = self._develop_and_verify(req, wt_dir)
          if not ok:
              self.store.write_task_md(req, status="FAILED", notes=notes)
              return
          deploy_ok, deploy_notes = self._deploy(req, wt_dir)
          self.store.write_task_md(req, status="SUCCESS" if deploy_ok else "FAILED",
                                   notes=notes + deploy_notes)
      finally:
          self._run_cmd(["git", "worktree", "remove", "--force", str(wt_dir)], cwd=self.repo_root, timeout=120)
  \<close>
  \<open>in_sandbox\<close> is the body of the \<open>try\<close>; \<open>Inl\<close> is a fault that leaves \<open>_process\<close>.
\<close>

definition in_sandbox ::
  "env \<Rightarrow> config \<Rightarrow> upgrade_request \<Rightarrow> path \<Rightarrow> sup_state \<Rightarrow> (pystr + unit) \<times> sup_state" where
  "in_sandbox e cfg req wt_dir st =
     (case develop_and_verify e cfg req wt_dir st of
        ((ok, notes), st1) \<Rightarrow>
          if \<not> ok then (Inr (), write_task_md e cfg req (u ''FAILED'') notes st1)
          else
            (case deploy e cfg req wt_dir st1 of
               (Inl err, st2) \<Rightarrow> (Inl err, st2)
             | (Inr (deploy_ok, deploy_notes), st2) \<Rightarrow>
                 (Inr (), write_task_md e cfg req (if deploy_ok then u ''SUCCESS'' else u ''FAILED'')
                            (notes @ deploy_notes) st2)))"

definition process :: "env \<Rightarrow> config \<Rightarrow> upgrade_request \<Rightarrow> sup_state \<Rightarrow> (pystr + unit) \<times> sup_state" where
  "process e cfg req st =
     (if scope req \<noteq> u ''core''
      then (Inr (), write_task_md e cfg req (u ''REJECTED'')
                      [u ''Non-core task: should be handled by skill installation/update pipeline.''] st)
      else
        case repo_is_clean e cfg st of
          ((clean, detail), st1) \<Rightarrow>
            if \<not> clean
            then (Inr (), write_task_md e cfg req (u ''FAILED'') [u ''Repo not clean: '' @ detail] st1)
            else
              let st2 = write_task_md e cfg req (u ''IN_PROGRESS'') [u ''Creating isolated worktree.''] st1;
                  branch = u ''codex/upgrade-'' @ slug (db e) (title req) @ u ''-'' @ lastn 6 (req_id req);
                  wt_dir = worktrees cfg @ [req_id req]
              in case run_cmd e [u ''git'', u ''worktree'', u ''add'', u ''-B'', branch, str_path wt_dir, u ''HEAD'']
                        (repo_root cfg) 120 True st2 of
                   (added, st3) \<Rightarrow>
                     (case in_sandbox e cfg req wt_dir st3 of
                        (r, st4) \<Rightarrow>
                          (case run_cmd e [u ''git'', u ''worktree'', u ''remove'', u ''--force'', str_path wt_dir]
                                  (repo_root cfg) 120 True st4 of
                             (removed, st5) \<Rightarrow> (r, st5))))"

section \<open>The polling loop\<close>

text \<open>
  \<^verbatim>\<open>
  def run_forever(self, poll_interval_s=3):
      self._ensure_service_running()
      while True:
          self._ensure_service_running()
          pending = self.store.list_pending()
          if pending:
              req_file = pending[0]
              req = self.store.load(req_file)
              try:
                  self._process(req)
              except Exception as e:
                  logger.exception("Upgrade task {} crashed", req.id)
                  self.store.write_task_md(req, status="FAILED", notes=[f"Supervisor exception: {e}"])
              finally:
                  self.store.pop(req_file)
          time.sleep(poll_interval_s)
  \<close>
  \<open>run_task\<close> is the \<open>try\<close> statement with its handler and its \<open>finally\<close>; \<open>poll\<close> is one
  round of the loop. A fault of \<open>_ensure_service_running\<close> or of \<open>load\<close> is outside the
  \<open>try\<close> and ends \<open>run_forever\<close>: \<open>poll\<close> returns it as \<open>Inl\<close>.
\<close>

definition run_task :: "env \<Rightarrow> config \<Rightarrow> path \<Rightarrow> upgrade_request \<Rightarrow> sup_state \<Rightarrow> sup_state" where
  "run_task e cfg req_file req st =
     (case process e cfg req st of
        (Inr done, st1) \<Rightarrow> pop req_file st1
      | (Inl err, st1) \<Rightarrow>
          pop req_file (write_task_md e cfg req (u ''FAILED'') [u ''Supervisor exception: '' @ err] st1))"

definition poll :: "env \<Rightarrow> config \<Rightarrow> nat \<Rightarrow> sup_state \<Rightarrow> (pystr + unit) \<times> sup_state" where
  "poll e cfg poll_interval_s st =
     (case ensure_service_running e cfg st of
        (Inl err, st1) \<Rightarrow> (Inl err, st1)
      | (Inr running, st1) \<Rightarrow>
          (case list_pending cfg st1 of
             [] \<Rightarrow> (Inr (), advance (poll_interval_s * tps) st1)
           | req_file # others \<Rightarrow>
               (case load req_file st1 of
                  Inl fault \<Rightarrow> (Inl fault, st1)
                | Inr req \<Rightarrow>
                    (Inr (), advance (poll_interval_s * tps) (run_task e cfg req_file req st1)))))"


declare dv_loop.simps [simp del]

section \<open>Reading a run\<close>

text \<open>The events a computation added to the trace.\<close>

definition appended :: "sup_state \<Rightarrow> sup_state \<Rightarrow> event list" where
  "appended st st' = drop (length (trace st)) (trace st')"

text \<open>The file operations among some events, in their order.\<close>

fun fsops :: "event list \<Rightarrow> fs_op list" where
  "fsops [] = []"
| "fsops (Fs op # evs) = op # fsops evs"
| "fsops (ev # evs) = fsops evs"

fun target :: "fs_op \<Rightarrow> path" where
  "target (Truncate p) = p"
| "target (WriteData p c) = p"
| "target (Rename p q) = q"
| "target (Unlink p) = p"

fun is_write :: "fs_op \<Rightarrow> bool" where
  "is_write (Truncate p) = True"
| "is_write (WriteData p c) = True"
| "is_write (Rename p q) = False"
| "is_write (Unlink p) = False"

fun is_rename :: "fs_op \<Rightarrow> bool" where
  "is_rename (Rename p q) = True"
| "is_rename (Truncate p) = False"
| "is_rename (WriteData p c) = False"
| "is_rename (Unlink p) = False"

text \<open>
  \<open>precedes A B evs\<close>: every event of \<open>evs\<close> that satisfies \<open>B\<close> comes after one that
  satisfies \<open>A\<close>.
\<close>

fun precedes :: "('a \<Rightarrow> bool) \<Rightarrow> ('a \<Rightarrow> bool) \<Rightarrow> 'a list \<Rightarrow> bool" where
  "precedes A B [] = True"
| "precedes A B (x # xs) = (\<not> B x \<and> (A x \<or> precedes A B xs))"

text \<open>The event that writes the data of the file \<open>p\<close>.\<close>

fun writes :: "path \<Rightarrow> event \<Rightarrow> bool" where
  "writes p (Fs (WriteData q c)) = (q = p)"
| "writes p ev = False"

text \<open>
  An event that changes the live source tree: \<open>git apply\<close>, forward or reverse, run in
  the repository root.
\<close>

fun is_live_apply :: "config \<Rightarrow> event \<Rightarrow> bool" where
  "is_live_apply cfg (Run t cmd cwd timeout) = (cwd = repo_root cfg \<and> take 2 cmd = [u ''git'', u ''apply''])"
| "is_live_apply cfg ev = False"

fun is_forward_apply :: "config \<Rightarrow> upgrade_request \<Rightarrow> event \<Rightarrow> bool" where
  "is_forward_apply cfg req (Run t cmd cwd timeout) = (cwd = repo_root cfg \<and> cmd = apply_cmd cfg req)"
| "is_forward_apply cfg req ev = False"

text \<open>
  What a command started at the moment \<open>t\<close> returns to its caller: the pair \<open>_run_cmd\<close>
  gives back, which depends on the moment, the command, the directory and the timeout
  alone.
\<close>

definition cmd_result :: "env \<Rightarrow> nat \<Rightarrow> pystr list \<Rightarrow> path \<Rightarrow> nat \<Rightarrow> bool \<Rightarrow> bool \<times> pystr" where
  "cmd_result e t cmd cwd timeout check =
     fst (run_cmd e cmd cwd timeout check \<lparr>now = t, files = [], service_proc = None, trace = []\<rparr>)"

text \<open>A signal sent to the service or the launch of the service.\<close>

fun is_service :: "event \<Rightarrow> bool" where
  "is_service (Popen t cmd cwd pid) = True"
| "is_service (Killpg t pid sig) = True"
| "is_service ev = False"

text \<open>\<open>none_after A B evs\<close>: no event of \<open>evs\<close> that satisfies \<open>B\<close> comes after one that satisfies \<open>A\<close>.\<close>

fun none_after :: "('a \<Rightarrow> bool) \<Rightarrow> ('a \<Rightarrow> bool) \<Rightarrow> 'a list \<Rightarrow> bool" where
  "none_after A B [] = True"
| "none_after A B (x # xs) = (if A x then list_all (\<lambda>y. \<not> B y) xs else none_after A B xs)"

definition staged_cmd :: "pystr list" where
  "staged_cmd = [u ''git'', u ''diff'', u ''--binary'', u ''--cached'']"

text \<open>The forward \<open>git apply --index\<close> run on the live tree, ending with status 0.\<close>

fun applied :: "env \<Rightarrow> config \<Rightarrow> upgrade_request \<Rightarrow> event \<Rightarrow> bool" where
  "applied e cfg req (Run t cmd cwd timeout) =
     (cmd = apply_cmd cfg req \<and> cwd = repo_root cfg \<and> fst (cmd_result e t cmd cwd timeout False))"
| "applied e cfg req ev = False"

text \<open>
  A run of \<open>git diff --binary --cached\<close> in the live tree that ended with status 0 and
  whose output, not blank, is the text \<open>c\<close>.
\<close>

fun staged_diff_is :: "env \<Rightarrow> config \<Rightarrow> content \<Rightarrow> event \<Rightarrow> bool" where
  "staged_diff_is e cfg c (Run t cmd cwd timeout) =
     (cmd = staged_cmd \<and> cwd = repo_root cfg
      \<and> (case cmd_result e t cmd cwd timeout False of
            (ok, reverse) \<Rightarrow> ok \<and> strip (db e) reverse \<noteq> [] \<and> c = Text reverse))"
| "staged_diff_is e cfg c ev = False"

text \<open>A child process; a check of \<open>_verify\<close>, which is given 600 seconds.\<close>

fun is_run :: "event \<Rightarrow> bool" where
  "is_run (Run t cmd cwd timeout) = True"
| "is_run ev = False"

fun check_run :: "event \<Rightarrow> bool" where
  "check_run (Run t cmd cwd timeout) = (hd cmd \<noteq> u ''codex'' \<and> timeout = 600)"
| "check_run ev = False"

text \<open>
  What the develop-verify loop gives its child processes, read along a run. A call of
  the generation step at the reading \<open>t\<close> of the clock has the timeout
  \<open>min(900, max(60, whole_seconds deadline t))\<close>; the \<open>codex\<close> process, if one is
  started, belongs to the call before it: it runs the command made of the prompt of
  that call, in its directory, with the very timeout of that call; every other command
  is given 600 seconds. \<open>call\<close> is the call still open, closed by its process or by
  the end of the attempt.
\<close>

fun timeouts_coded :: "env \<Rightarrow> nat \<Rightarrow> (pystr \<times> path \<times> nat) option \<Rightarrow> event list \<Rightarrow> bool" where
  "timeouts_coded e deadline call [] = True"
| "timeouts_coded e deadline call (CallCodex t p cwd timeout # evs) =
     (timeout = codex_timeout (whole_seconds e deadline t)
      \<and> timeouts_coded e deadline (Some (p, cwd, timeout)) evs)"
| "timeouts_coded e deadline call (Run t cmd cwd timeout # evs) =
     (if hd cmd = u ''codex''
      then call = Some (last cmd, cwd, timeout) \<and> cmd = codex_cmd (last cmd)
           \<and> timeouts_coded e deadline None evs
      else timeout = 600 \<and> timeouts_coded e deadline call evs)"
| "timeouts_coded e deadline call (Verified ok vnotes # evs) = timeouts_coded e deadline None evs"
| "timeouts_coded e deadline call (ev # evs) = timeouts_coded e deadline call evs"

text \<open>
  The notes \<open>_verify\<close> can return apart from the output of a failed check: for each
  check that it was skipped, that it passed or that it failed, and that no tool was
  there.
\<close>

definition status_notes :: "(pystr \<times> pystr list) list \<Rightarrow> pystr list" where
  "status_notes cs =
     concat (map (\<lambda>(name, cmd).
                    [u ''Skipped '' @ name @ u '': '' @ [39] @ hd cmd @ [39] @ u '' not found.'',
                     name @ u '' passed.'', name @ u '' failed.'']) cs)
     @ [u ''No verification tools available.'']"

text \<open>
  What C6 asks of an event: the timeout of a child process is no longer than the time
  left to the deadline when the process starts.
\<close>

fun timeout_within :: "nat \<Rightarrow> event \<Rightarrow> bool" where
  "timeout_within deadline (Run t cmd cwd timeout) = (timeout * tps \<le> deadline - t)"
| "timeout_within deadline ev = True"

text \<open>
  The prompts of the generation step along a run: each is built from the feedback in
  force, which is empty at first and after every verification is the last eight notes
  that verification returned, joined by newlines.
\<close>

fun feedback_chain :: "upgrade_request \<Rightarrow> pystr \<Rightarrow> event list \<Rightarrow> bool" where
  "feedback_chain req fb [] = True"
| "feedback_chain req fb (CallCodex t p cwd timeout # evs) =
     (p = build_prompt req fb \<and> feedback_chain req fb evs)"
| "feedback_chain req fb (Verified ok vnotes # evs) =
     (length vnotes \<le> 4 \<and> feedback_chain req (join nl (lastn 8 vnotes)) evs)"
| "feedback_chain req fb (ev # evs) = feedback_chain req fb evs"

fun last_feedback :: "pystr \<Rightarrow> event list \<Rightarrow> pystr" where
  "last_feedback fb [] = fb"
| "last_feedback fb (Verified ok vnotes # evs) = last_feedback (join nl (lastn 8 vnotes)) evs"
| "last_feedback fb (ev # evs) = last_feedback fb evs"

text \<open>The prompts given to the generation step, in order.\<close>

fun prompts :: "event list \<Rightarrow> pystr list" where
  "prompts [] = []"
| "prompts (CallCodex t p cwd timeout # evs) = p # prompts evs"
| "prompts (ev # evs) = prompts evs"

text \<open>The number of lines of a text.\<close>

definition line_count :: "pystr \<Rightarrow> nat" where
  "line_count s = length (split_on 10 s)"

text \<open>The notes of a task record: its lines after the heading \<open>## Notes\<close>.\<close>

definition notes_of_md :: "pystr \<Rightarrow> pystr list" where
  "notes_of_md s = tl (dropWhile (\<lambda>l. l \<noteq> u ''## Notes'') (butlast (split_on 10 s)))"

text \<open>
  How a computation changed the state: it added events to the trace, the file
  operations among them all satisfy \<open>P\<close>, and no file disappeared.
\<close>

definition grows :: "(fs_op \<Rightarrow> bool) \<Rightarrow> sup_state \<Rightarrow> sup_state \<Rightarrow> bool" where
  "grows P st st' =
     ((\<exists>evs. trace st' = trace st @ evs \<and> list_all P (fsops evs))
      \<and> (\<forall>p. map_of (files st) p \<noteq> None \<longrightarrow> map_of (files st') p \<noteq> None))"

text \<open>
  A computation that, after file operations satisfying \<open>P\<close>, wrote the record of the
  task with a terminal status and touched no file after that.
\<close>

definition terminal :: "pystr \<Rightarrow> bool" where
  "terminal status = (status = u ''SUCCESS'' \<or> status = u ''FAILED'' \<or> status = u ''REJECTED'')"

definition settles ::
  "config \<Rightarrow> upgrade_request \<Rightarrow> (fs_op \<Rightarrow> bool) \<Rightarrow> sup_state \<Rightarrow> sup_state \<Rightarrow> bool" where
  "settles cfg req P st st' =
     ((\<exists>evs pre status notes updated.
         trace st' = trace st @ evs
         \<and> fsops evs = pre @ write_task_md_ops cfg req status notes updated
         \<and> terminal status \<and> list_all P pre)
      \<and> (\<forall>p. map_of (files st) p \<noteq> None \<longrightarrow> map_of (files st') p \<noteq> None))"

text \<open>A write that stays out of the queue directory.\<close>

definition outside_queue :: "config \<Rightarrow> fs_op \<Rightarrow> bool" where
  "outside_queue cfg op = (is_write op \<and> \<not> in_queue cfg (target op))"

section \<open>Examples\<close>

definition ex_cfg :: config where
  "ex_cfg = \<lparr> workspace = [u ''ws''], repo_root = [u ''repo''], service_cmd = u ''python3 -m nanobot gateway'',
               build_timeout_s = 1800, health_grace_s = 20 \<rparr>"

definition ex_req :: upgrade_request where
  "ex_req = \<lparr> req_id = u ''20260105-093007-ab12cd'', title = u ''Bump timeout'', prompt = u ''raise it'',
               scope = u ''core'', requested_by = u ''ops'', created_at = u ''C'' \<rparr>"

definition ex_skill :: upgrade_request where
  "ex_skill = ex_req\<lparr>scope := u ''skill''\<rparr>"

definition ex_state :: sup_state where
  "ex_state = \<lparr> now = 0, files = [], service_proc = None, trace = [] \<rparr>"

text \<open>
  A world in which every executable is found, the service starts and stays alive,
  every command is given by \<open>beh\<close>, the second reading of the clock comes within the
  tick of the first and the whole seconds are exact; and a world without any
  executable.
\<close>

definition ex_env :: "(nat \<Rightarrow> pystr list \<Rightarrow> proc_behaviour) \<Rightarrow> env" where
  "ex_env beh = \<lparr> db = ascii_db, utc_iso = (\<lambda>t. u ''T''), which_at = (\<lambda>t name. True),
                   proc_at = (\<lambda>t cmd cwd. beh t cmd), popen_at = (\<lambda>t. Inr 7),
                   alive_at = (\<lambda>t pid. True), term_at = (\<lambda>t pid. ExitsAfter 5),
                   clock_lag = (\<lambda>t. 0),
                   whole_seconds = (\<lambda>d t. (int d - int t) div int tps) \<rparr>"

definition ex_bare :: env where
  "ex_bare = (ex_env (\<lambda>t cmd. Runs 0 0 [] []))\<lparr>which_at := (\<lambda>t name. False)\<rparr>"

text \<open>
  Commands for the examples. \<open>ex_slow\<close>: the generation step runs 900 seconds, the
  compile check 600 seconds, everything else ends at once and succeeds. \<open>ex_failing\<close>:
  the compile check fails with ten lines of output when started before the third tick
  and succeeds later; everything else succeeds.
\<close>

definition ex_slow :: "nat \<Rightarrow> pystr list \<Rightarrow> proc_behaviour" where
  "ex_slow t cmd =
     (if hd cmd = u ''codex'' then Runs (900 * tps) 0 [] []
      else if hd cmd = u ''python3'' then Runs (600 * tps) 0 [] []
      else Runs 0 0 [] [])"

definition ex_output :: pystr where
  "ex_output = join nl [u ''e1'', u ''e2'', u ''e3'', u ''e4'', u ''e5'', u ''e6'', u ''e7'', u ''e8'',
                        u ''e9'', u ''e10'']"

definition ex_failing :: "nat \<Rightarrow> pystr list \<Rightarrow> proc_behaviour" where
  "ex_failing t cmd =
     (if hd cmd = u ''python3'' \<and> t < 3 then Runs 0 1 ex_output [] else Runs 0 0 [] [])"

text \<open>\<open>ex_quick\<close>: every command ends at once, succeeds and prints a patch.\<close>

definition ex_quick :: "nat \<Rightarrow> pystr list \<Rightarrow> proc_behaviour" where
  "ex_quick t cmd = (if hd cmd = u ''git'' \<and> hd (tl cmd) = u ''status'' then Runs 0 0 [] []
                     else Runs 0 0 (u ''diff --git'') [])"

text \<open>The store after \<open>ex_req\<close> has been submitted.\<close>

definition ex_queued :: sup_state where
  "ex_queued = snd (enqueue (ex_env ex_quick) ex_cfg ex_req ex_state)"

text \<open>
  \<open>ex_faulty\<close>: as \<open>ex_env ex_quick\<close>, but the service can be launched at the very
  first moment only; every later launch raises.
\<close>

definition ex_faulty :: env where
  "ex_faulty = (ex_env ex_quick)\<lparr>popen_at := (\<lambda>t. if t = 0 then Inr 7 else Inl (u ''boom''))\<rparr>"

section \<open>Facts about strings\<close>

lemma u_eq_iff: "u a = u b \<longleftrightarrow> a = b"
proof -
  have "inj (of_char :: char \<Rightarrow> nat)"
    by (rule injI) simp
  then show ?thesis
    by (simp add: u_def inj_map_eq_map)
qed

lemma u_Nil_iff: "u a = [] \<longleftrightarrow> a = []"
  by (simp add: u_def)

lemma length_u: "length (u a) = length a"
  by (simp add: u_def)

lemma split_on_nonempty: "split_on c xs \<noteq> []"
  by (induction xs) (auto split: list.splits)

lemma split_on_no_sep: "p \<in> set (split_on c xs) \<Longrightarrow> c \<notin> set p"
  by (induction xs arbitrary: p) (auto split: list.splits if_splits)

lemma split_on_subset: "p \<in> set (split_on c xs) \<Longrightarrow> set p \<subseteq> set xs"
proof (induction xs arbitrary: p)
  case Nil
  then show ?case by simp
next
  case (Cons a xs)
  obtain q qs where q: "split_on c xs = q # qs"
    using split_on_nonempty[of c xs] by (cases "split_on c xs") auto
  have "set q \<subseteq> set xs" "\<forall>r\<in>set qs. set r \<subseteq> set xs"
    using Cons.IH q by auto
  then show ?case using Cons.prems q by (auto split: if_splits)
qed

lemma split_on_all_sep: "set xs \<subseteq> {c} \<Longrightarrow> p \<in> set (split_on c xs) \<Longrightarrow> p = []"
  by (induction xs arbitrary: p) (auto split: list.splits if_splits)

lemma set_join: "set (join sep ps) \<subseteq> set sep \<union> \<Union> (set ` set ps)"
  by (induction sep ps rule: join.induct) auto

lemma hd_join:
  "(\<forall>p\<in>set ps. p \<noteq> [] \<and> h \<notin> set p) \<Longrightarrow> ps \<noteq> [] \<Longrightarrow> hd (join [h] ps) \<noteq> h"
  by (induction "[h]" ps rule: join.induct) (auto simp: hd_append)

lemma hd_take: "xs \<noteq> [] \<Longrightarrow> 0 < n \<Longrightarrow> hd (take n xs) = hd xs"
  by (cases xs; cases n) auto

section \<open>The slug\<close>

lemma no_double_hyphen_append:
  "no_double_hyphen xs \<Longrightarrow> no_double_hyphen ys
     \<Longrightarrow> (xs \<noteq> [] \<Longrightarrow> ys \<noteq> [] \<Longrightarrow> \<not> (last xs = hyphen \<and> hd ys = hyphen))
     \<Longrightarrow> no_double_hyphen (xs @ ys)"
proof (induction xs)
  case Nil
  then show ?case by simp
next
  case (Cons a xs)
  show ?case
  proof (cases xs)
    case Nil
    then show ?thesis using Cons.prems by (cases ys) auto
  next
    case (Cons b cs)
    then show ?thesis using Cons.IH Cons.prems by auto
  qed
qed

lemma no_double_hyphen_free: "hyphen \<notin> set p \<Longrightarrow> no_double_hyphen p"
  by (induction p rule: no_double_hyphen.induct) auto

lemma no_double_hyphen_join:
  "(\<forall>p\<in>set ps. p \<noteq> [] \<and> hyphen \<notin> set p) \<Longrightarrow> no_double_hyphen (join [hyphen] ps)"
proof (induction "[hyphen]" ps rule: join.induct)
  case 1
  then show ?case by simp
next
  case (2 p)
  then show ?case by (simp add: no_double_hyphen_free)
next
  case (3 p q ps)
  have a: "no_double_hyphen (hyphen # join [hyphen] (q # ps))"
    using 3 hd_join[of "q # ps" hyphen] by (cases "join [hyphen] (q # ps)") auto
  have "p \<noteq> []" "hyphen \<notin> set p" using 3 by auto
  then have "last p \<noteq> hyphen" using last_in_set[of p] by metis
  then show ?case using 3 a
    by (auto intro!: no_double_hyphen_append simp: no_double_hyphen_free)
qed

lemma no_double_hyphen_take: "no_double_hyphen xs \<Longrightarrow> no_double_hyphen (take n xs)"
proof (induction xs arbitrary: n rule: no_double_hyphen.induct)
  case (1 a b cs)
  show ?case
  proof (cases n)
    case 0
    then show ?thesis by simp
  next
    case (Suc m)
    then show ?thesis using 1(1)[of m] 1(2) by (cases m) auto
  qed
qed (auto simp: take_Cons')

lemma slug_alt:
  "slug tab text =
     (if take 40 (join [hyphen] (slug_parts tab text)) = [] then u ''upgrade''
      else take 40 (join [hyphen] (slug_parts tab text)))"
  by (simp add: slug_def slug_parts_def Let_def)

lemma slug_parts_good: "p \<in> set (slug_parts tab text) \<Longrightarrow> p \<noteq> [] \<and> hyphen \<notin> set p"
  by (auto simp: slug_parts_def dest: split_on_no_sep)

lemma slug_nonempty: "slug tab text \<noteq> []"
  by (simp add: slug_alt u_Nil_iff)

lemma slug_length: "length (slug tab text) \<le> 40"
  by (simp add: slug_alt length_u)

lemma slug_hd: "hd (slug tab text) \<noteq> hyphen"
proof (cases "take 40 (join [hyphen] (slug_parts tab text)) = []")
  case True
  then show ?thesis by (simp add: slug_alt hyphen_def u_def)
next
  case False
  then have ne: "slug_parts tab text \<noteq> []" by auto
  have "hd (join [hyphen] (slug_parts tab text)) \<noteq> hyphen"
    using hd_join[OF _ ne, of hyphen] slug_parts_good by blast
  then show ?thesis using False by (simp add: slug_alt hd_take)
qed

lemma slug_no_double: "no_double_hyphen (slug tab text)"
proof (cases "take 40 (join [hyphen] (slug_parts tab text)) = []")
  case True
  then show ?thesis by (simp add: slug_alt hyphen_def u_def)
next
  case False
  have "no_double_hyphen (join [hyphen] (slug_parts tab text))"
    using no_double_hyphen_join slug_parts_good by blast
  then show ?thesis using False by (simp add: slug_alt no_double_hyphen_take)
qed

lemma set_slug_clean:
  "set (slug_clean tab text)
     \<subseteq> {hyphen} \<union> {c. \<exists>ch\<in>set text. isalnum tab ch \<and> c \<in> set (lower tab ch)}"
  by (auto simp: slug_clean_def split: if_splits)

lemma slug_chars:
  assumes "c \<in> set (slug tab text)"
  shows "c = hyphen \<or> c \<in> set (u ''upgrade'')
           \<or> (\<exists>ch\<in>set text. isalnum tab ch \<and> c \<in> set (lower tab ch))"
proof (cases "take 40 (join [hyphen] (slug_parts tab text)) = []")
  case True
  then show ?thesis using assms by (simp add: slug_alt)
next
  case False
  then have "c \<in> set (join [hyphen] (slug_parts tab text))"
    using assms by (auto simp: slug_alt dest: in_set_takeD)
  then have "c = hyphen \<or> (\<exists>p\<in>set (slug_parts tab text). c \<in> set p)"
    using set_join[of "[hyphen]" "slug_parts tab text"] by auto
  then have "c = hyphen \<or> c \<in> set (slug_clean tab text)"
    using split_on_subset by (fastforce simp: slug_parts_def)
  then show ?thesis
    using set_slug_clean by fastforce
qed

lemma slug_no_alnum:
  assumes "\<forall>ch\<in>set text. \<not> isalnum tab ch"
  shows "slug tab text = u ''upgrade''"
proof -
  have "set (slug_clean tab text) \<subseteq> {hyphen}"
    using assms by (auto simp: slug_clean_def)
  then have "slug_parts tab text = []"
    using split_on_all_sep[of "slug_clean tab text" hyphen]
    by (auto simp: slug_parts_def filter_empty_conv)
  then show ?thesis by (simp add: slug_alt)
qed

text \<open>
  C10, as the code has it. For every input and whatever the Unicode tables are, the
  slug is not empty, has at most 40 characters, does not start with a hyphen, has no
  two hyphens in a row, and is \<open>upgrade\<close> when the input has no alphanumeric character.
  Each of its characters is a hyphen, a letter of \<open>upgrade\<close>, or a character of the
  lower case of an alphanumeric character of the input. These are lowercase
  alphanumerics whenever the lower case of an alphanumeric character consists of
  lowercase alphanumerics, which the tables do not promise.
\<close>

theorem slug_shape:
  "slug tab text \<noteq> [] \<and> length (slug tab text) \<le> 40
   \<and> hd (slug tab text) \<noteq> hyphen \<and> no_double_hyphen (slug tab text)
   \<and> (\<forall>c\<in>set (slug tab text). c = hyphen \<or> c \<in> set (u ''upgrade'')
          \<or> (\<exists>ch\<in>set text. isalnum tab ch \<and> c \<in> set (lower tab ch)))
   \<and> ((\<forall>ch\<in>set text. \<not> isalnum tab ch) \<longrightarrow> slug tab text = u ''upgrade'')
   \<and> ((\<forall>ch. isalnum tab ch \<longrightarrow> (\<forall>c\<in>set (lower tab ch). lower_alnum tab c))
         \<and> (\<forall>c\<in>set (u ''upgrade''). lower_alnum tab c)
       \<longrightarrow> (\<forall>c\<in>set (slug tab text). c = hyphen \<or> lower_alnum tab c))"
proof -
  have chars: "\<forall>c\<in>set (slug tab text). c = hyphen \<or> c \<in> set (u ''upgrade'')
          \<or> (\<exists>ch\<in>set text. isalnum tab ch \<and> c \<in> set (lower tab ch))"
    using slug_chars by blast
  have "\<forall>c\<in>set (slug tab text). c = hyphen \<or> lower_alnum tab c"
    if "\<forall>ch. isalnum tab ch \<longrightarrow> (\<forall>c\<in>set (lower tab ch). lower_alnum tab c)"
      and "\<forall>c\<in>set (u ''upgrade''). lower_alnum tab c"
    using chars that by blast
  then show ?thesis
    using chars slug_nonempty slug_length slug_hd slug_no_double slug_no_alnum by blast
qed

lemma ascii_db_lowers:
  "\<forall>ch. isalnum ascii_db ch \<longrightarrow> (\<forall>c\<in>set (lower ascii_db ch). lower_alnum ascii_db c)"
  by (auto simp: ascii_db_def ascii_isalnum_def lower_alnum_def)

lemma slug_example: "slug ascii_db (u ''Fix: the  Bug!'') = u ''fix-the-bug''"
  by (simp add: slug_def slug_clean_def ascii_db_def ascii_isalnum_def hyphen_def u_def)

theorem slug_shape_witness:
  "slug ascii_db (u ''Fix: the  Bug!'') = u ''fix-the-bug''
   \<and> list_all (\<lambda>c. c = hyphen \<or> lower_alnum ascii_db c) (slug ascii_db (u ''Fix: the  Bug!''))
   \<and> slug ascii_db (u ''?!'') = u ''upgrade''"
proof -
  have up: "\<forall>c\<in>set (u ''upgrade''). lower_alnum ascii_db c"
    by (simp add: ascii_db_def ascii_isalnum_def lower_alnum_def u_def)
  have none: "\<forall>ch\<in>set (u ''?!''). \<not> isalnum ascii_db ch"
    by (simp add: ascii_db_def ascii_isalnum_def u_def)
  have "\<forall>c\<in>set (slug ascii_db (u ''Fix: the  Bug!'')). c = hyphen \<or> lower_alnum ascii_db c"
    using slug_shape[of ascii_db "u ''Fix: the  Bug!''"] ascii_db_lowers up by blast
  moreover have "slug ascii_db (u ''?!'') = u ''upgrade''"
    using slug_shape[of ascii_db "u ''?!''"] none by blast
  ultimately show ?thesis
    by (simp add: slug_example list_all_iff)
qed

text \<open>
  C10 as stated fails at the one-character title U+0130: it is alphanumeric, its lower
  case is \<open>i\<close> followed by the combining mark U+0307, and the mark is neither a hyphen
  nor alphanumeric.
\<close>

theorem slug_charset_counterexample:
  "slug py_db [304] = [105, 775] \<and> 775 \<noteq> hyphen \<and> \<not> isalnum py_db 775"
  by (simp add: slug_def slug_clean_def py_db_def ascii_isalnum_def hyphen_def)

section \<open>Request ids\<close>

lemma digits_1: "n < 10 \<Longrightarrow> 0 < k \<Longrightarrow> digits k n = [48 + n]"
  by (cases k) auto

lemma digits_2: "10 \<le> n \<Longrightarrow> n < 100 \<Longrightarrow> 1 < k \<Longrightarrow> digits k n = [48 + n div 10, 48 + n mod 10]"
  by (cases k) (auto simp: digits_1)

lemma digits_3: "100 \<le> n \<Longrightarrow> n < 1000 \<Longrightarrow> 2 < k
  \<Longrightarrow> digits k n = [48 + n div 10 div 10, 48 + n div 10 mod 10, 48 + n mod 10]"
  by (cases k) (auto simp: digits_2)

lemma digits_4: "1000 \<le> n \<Longrightarrow> n < 10000 \<Longrightarrow> 3 < k
  \<Longrightarrow> digits k n = [48 + n div 10 div 10 div 10, 48 + n div 10 div 10 mod 10, 48 + n div 10 mod 10, 48 + n mod 10]"
  by (cases k) (auto simp: digits_3)

lemma fixed_numeral: "fixed (numeral k) n = fixed (pred_numeral k) (n div 10) @ [48 + n mod 10]"
  by (simp only: numeral_eq_Suc[of k] fixed.simps)

lemma pad2: "n < 100 \<Longrightarrow> pad 2 n = fixed 2 n"
  by (cases "n < 10") (auto simp: pad_def str_nat_def digits_1 digits_2 fixed_numeral simp del: digits.simps)

lemma pad4: "1000 \<le> n \<Longrightarrow> n < 10000 \<Longrightarrow> pad 4 n = fixed 4 n"
  by (simp add: pad_def str_nat_def digits_4 fixed_numeral del: digits.simps)

lemma length_fixed: "length (fixed w n) = w"
  by (induction w arbitrary: n) auto

lemma block_less:
  fixes a b x y :: "nat list"
  assumes "length a = length b" and "a < b \<or> (a = b \<and> x < y)"
  shows "a @ x < b @ y"
  using assms
  by (auto simp: list_less_def intro: lexord_sufI lexord_append_leftI)

lemma div10_less:
  assumes "(n::nat) < m"
  shows "n div 10 < m div 10 \<or> (n div 10 = m div 10 \<and> n mod 10 < m mod 10)"
proof (cases "n div 10 = m div 10")
  case True
  have "n div 10 * 10 + n mod 10 = n" "m div 10 * 10 + m mod 10 = m"
    by simp_all
  then have "n mod 10 < m mod 10"
    using assms True by linarith
  then show ?thesis using True by simp
next
  case False
  have "n div 10 \<le> m div 10"
    using assms by (simp add: div_le_mono)
  then show ?thesis using False by simp
qed

lemma fixed_mono: "n < m \<Longrightarrow> m < 10 ^ w \<Longrightarrow> fixed w n < fixed w m"
proof (induction w arbitrary: n m)
  case 0
  then show ?case by simp
next
  case (Suc w)
  have m: "m div 10 < 10 ^ w" using Suc.prems(2) by simp
  from div10_less[OF Suc.prems(1)] show ?case
  proof
    assume "n div 10 < m div 10"
    from Suc.IH[OF this m] show ?thesis
      by (auto simp: length_fixed intro!: block_less)
  next
    assume "n div 10 = m div 10 \<and> n mod 10 < m mod 10"
    then show ?thesis
      by (auto simp: length_fixed intro!: block_less)
  qed
qed


lemma strftime_fixed:
  "valid_dt d \<Longrightarrow> strftime_id d = fixed 4 (dt_year d) @ fixed 2 (dt_month d) @ fixed 2 (dt_day d) @ [hyphen]
     @ fixed 2 (dt_hour d) @ fixed 2 (dt_minute d) @ fixed 2 (dt_second d)"
  by (simp add: strftime_id_def valid_dt_def pad2 pad4)

lemma fixed_step:
  assumes "n < m \<or> (n = m \<and> P)" "n < 10 ^ w" "m < 10 ^ w" "P \<Longrightarrow> x < y"
  shows "fixed w n @ x < fixed w m @ y"
proof (rule block_less)
  show "length (fixed w n) = length (fixed w m)"
    by (simp add: length_fixed)
  show "fixed w n < fixed w m \<or> fixed w n = fixed w m \<and> x < y"
    using assms fixed_mono[of n m w] by blast
qed

lemma strftime_less:
  assumes v1: "valid_dt d1" and v2: "valid_dt d2" and less: "dt_seconds d1 < dt_seconds d2"
  shows "strftime_id d1 @ x < strftime_id d2 @ y"
proof -
  have order: "dt_year d1 < dt_year d2 \<or> (dt_year d1 = dt_year d2 \<and>
      (dt_month d1 < dt_month d2 \<or> (dt_month d1 = dt_month d2 \<and>
      (dt_day d1 < dt_day d2 \<or> (dt_day d1 = dt_day d2 \<and>
      (dt_hour d1 < dt_hour d2 \<or> (dt_hour d1 = dt_hour d2 \<and>
      (dt_minute d1 < dt_minute d2 \<or> (dt_minute d1 = dt_minute d2 \<and>
      (dt_second d1 < dt_second d2 \<or> (dt_second d1 = dt_second d2 \<and> False)))))))))))"
    using less by (simp add: dt_seconds_def)
  have b: "dt_year d1 < 10 ^ 4" "dt_year d2 < 10 ^ 4" "dt_month d1 < 10 ^ 2" "dt_month d2 < 10 ^ 2"
    "dt_day d1 < 10 ^ 2" "dt_day d2 < 10 ^ 2" "dt_hour d1 < 10 ^ 2" "dt_hour d2 < 10 ^ 2"
    "dt_minute d1 < 10 ^ 2" "dt_minute d2 < 10 ^ 2" "dt_second d1 < 10 ^ 2" "dt_second d2 < 10 ^ 2"
    using v1 v2 by (simp_all add: valid_dt_def)
  show ?thesis
    unfolding strftime_fixed[OF v1] strftime_fixed[OF v2] append_assoc
    apply (rule fixed_step[OF order b(1) b(2)])
    apply (erule fixed_step[OF _ b(3) b(4)])
    apply (erule fixed_step[OF _ b(5) b(6)])
    apply (simp only: append_Cons append_Nil Cons_less_Cons)
    apply (rule disjI2, rule conjI, rule refl)
    apply (erule fixed_step[OF _ b(7) b(8)])
    apply (erule fixed_step[OF _ b(9) b(10)])
    apply (erule fixed_step[OF _ b(11) b(12)])
    apply simp
    done
qed


lemma strftime_example:
  "strftime_id ex_dt_a = u ''20260105-093007'' \<and> strftime_id ex_dt_b = u ''20260105-093007''
   \<and> strftime_id ex_dt_c = u ''20260105-093008''"
proof -
  have "valid_dt ex_dt_a" "valid_dt ex_dt_b" "valid_dt ex_dt_c"
    by (simp_all add: valid_dt_def ex_dt_a_def ex_dt_b_def ex_dt_c_def)
  then show ?thesis
    by (simp add: strftime_fixed fixed_numeral ex_dt_a_def ex_dt_b_def ex_dt_c_def hyphen_def u_def)
qed

text \<open>
  C8, as the code has it. The id is the local clock reading printed to the second,
  followed by six random hexadecimal digits. Of two requests created in different
  seconds (the clock not running backwards, the years having four digits), the earlier
  one has the smaller id and the smaller file name, whatever the random digits are; and
  \<open>list_pending\<close> lists the queue in the order of the file names.
\<close>

theorem request_id_order:
  assumes "valid_dt d1" and "valid_dt d2" and "dt_seconds d1 < dt_seconds d2"
  shows "dt_earlier d1 d2
    \<and> req_id (create tab d1 h1 c1 t1 p1 s1 b1) < req_id (create tab d2 h2 c2 t2 p2 s2 b2)
    \<and> last (req_path cfg (create tab d1 h1 c1 t1 p1 s1 b1))
        < last (req_path cfg (create tab d2 h2 c2 t2 p2 s2 b2))
    \<and> sorted (map last (list_pending cfg st))"
proof -
  have "dt_earlier d1 d2"
    using assms(3) by (auto simp: dt_earlier_def dt_seconds_def)
  moreover have "strftime_id d1 @ x < strftime_id d2 @ y" for x y
    using assms by (rule strftime_less)
  moreover have "sorted (map last (list_pending cfg st))"
    by (simp add: list_pending_def)
  ultimately show ?thesis
    by (simp add: create_def req_path_def)
qed

theorem request_id_order_witness:
  "dt_earlier ex_dt_a ex_dt_c
   \<and> req_id (create ascii_db ex_dt_a (u ''ffffff00'') [] [] [] [] [])
       < req_id (create ascii_db ex_dt_c (u ''00000000'') [] [] [] [] [])"
proof -
  have "valid_dt ex_dt_a" "valid_dt ex_dt_c" "dt_seconds ex_dt_a < dt_seconds ex_dt_c"
    by (simp_all add: valid_dt_def dt_seconds_def ex_dt_a_def ex_dt_c_def)
  then show ?thesis
    using request_id_order[of ex_dt_a ex_dt_c] by blast
qed

text \<open>
  C8 as stated fails for two requests created in the same second: the reading
  \<open>ex_dt_a\<close> is earlier than \<open>ex_dt_b\<close>, and with the random digits \<open>ffffff\<close> and
  \<open>000000\<close> the request created later has the smaller id, so the queue lists it first.
\<close>

theorem request_id_order_counterexample:
  "dt_earlier ex_dt_a ex_dt_b \<and> valid_dt ex_dt_a \<and> valid_dt ex_dt_b
   \<and> req_id (create ascii_db ex_dt_a (u ''ffffff00'') [] [] [] [] []) = u ''20260105-093007-ffffff''
   \<and> req_id (create ascii_db ex_dt_b (u ''00000000'') [] [] [] [] []) = u ''20260105-093007-000000''
   \<and> u ''20260105-093007-000000'' < u ''20260105-093007-ffffff''"
proof -
  have "dt_earlier ex_dt_a ex_dt_b" "valid_dt ex_dt_a" "valid_dt ex_dt_b"
    by (simp_all add: dt_earlier_def dt_seconds_def valid_dt_def ex_dt_a_def ex_dt_b_def)
  moreover have "u ''20260105-093007-000000'' < u ''20260105-093007-ffffff''"
    by (simp add: u_def)
  ultimately show ?thesis
    using strftime_example by (simp add: create_def hyphen_def u_def)
qed

section \<open>Facts about the state\<close>

lemma emit_simps [simp]:
  "trace (emit evs st) = trace st @ evs" "now (emit evs st) = now st"
  "files (emit evs st) = files st" "service_proc (emit evs st) = service_proc st"
  by (simp_all add: emit_def)

lemma advance_simps [simp]:
  "trace (advance d st) = trace st" "now (advance d st) = now st + d"
  "files (advance d st) = files st" "service_proc (advance d st) = service_proc st"
  by (simp_all add: advance_def)

lemma do_ops_simps [simp]:
  "trace (do_ops ops st) = trace st @ map Fs ops" "now (do_ops ops st) = now st"
  "files (do_ops ops st) = apply_ops (files st) ops" "service_proc (do_ops ops st) = service_proc st"
  by (simp_all add: do_ops_def)

lemma fsops_append [simp]: "fsops (xs @ ys) = fsops xs @ fsops ys"
  by (induction xs rule: fsops.induct) auto

lemma fsops_map_Fs [simp]: "fsops (map Fs ops) = ops"
  by (induction ops) auto

lemma appended_append [simp]: "trace st' = trace st @ evs \<Longrightarrow> appended st st' = evs"
  by (simp add: appended_def)

lemma run_cmd_facts:
  assumes "run_cmd e cmd cwd timeout check st = (r, st')"
  shows "trace st' = trace st @ [Run (now st) cmd cwd timeout]"
    and "files st' = files st" and "service_proc st' = service_proc st" and "now st \<le> now st'"
  using assms
  by (auto simp: run_cmd_def Let_def split: proc_behaviour.splits if_splits)

lemma which_facts:
  assumes "which e name st = (r, st')"
  shows "trace st' = trace st" and "files st' = files st" and "service_proc st' = service_proc st"
    and "now st' = Suc (now st)" and "r = which_at e (now st) name"
  using assms by (auto simp: which_def)

lemma check_run_is_run: "list_all check_run evs \<Longrightarrow> list_all is_run evs"
  by (induction evs rule: list.induct) (auto elim: check_run.elims)

lemma fsops_runs: "list_all is_run evs \<Longrightarrow> fsops evs = []"
  by (induction evs rule: fsops.induct) auto

lemma feedback_chain_runs:
  "list_all is_run evs \<Longrightarrow> feedback_chain req fb (evs @ rest) = feedback_chain req fb rest"
  by (induction req fb evs rule: feedback_chain.induct) auto

lemma timeouts_coded_checks:
  "list_all check_run evs \<Longrightarrow> timeouts_coded e deadline call (evs @ rest) = timeouts_coded e deadline call rest"
  by (induction e deadline call evs rule: timeouts_coded.induct) auto

text \<open>What a note of \<open>_verify\<close> is: a status note or the trimmed output of a failed check.\<close>

lemma verify_loop_shape:
  assumes "verify_loop e cwd cs executed ns st = ((ok, ns'), st')"
    and "\<forall>c\<in>set cs. hd (snd c) \<noteq> u ''codex''"
  shows "(\<exists>runs. trace st' = trace st @ runs \<and> list_all check_run runs)
    \<and> files st' = files st \<and> service_proc st' = service_proc st \<and> now st \<le> now st'
    \<and> length ns' \<le> length ns + length cs + 1
    \<and> (\<forall>n\<in>set ns'. n \<in> set ns \<or> n \<in> set (status_notes cs) \<or> (\<exists>out. n = trim out 1200))"
  using assms
proof (induction e cwd cs executed ns st rule: verify_loop.induct)
  case (1 e cwd executed ns st)
  then show ?case by (auto simp: status_notes_def split: if_splits)
next
  case (2 e cwd name cmd rest executed ns st)
  let ?st1 = "advance 1 st"
  let ?skip = "u ''Skipped '' @ name @ u '': '' @ [39] @ hd cmd @ [39] @ u '' not found.''"
  have w: "which e (hd cmd) st = (which_at e (now st) (hd cmd), ?st1)"
    by (simp add: which_def)
  obtain rok out st2 where r: "run_cmd e cmd cwd 600 False ?st1 = ((rok, out), st2)"
    by (metis surj_pair)
  note rf = run_cmd_facts[OF r]
  have nc: "hd cmd \<noteq> u ''codex''" "\<forall>c\<in>set rest. hd (snd c) \<noteq> u ''codex''"
    using "2.prems"(2) by auto
  have dr: "check_run (Run (now ?st1) cmd cwd 600)" using nc by simp
  have sn: "set (status_notes ((name, cmd) # rest))
              = {?skip, name @ u '' passed.'', name @ u '' failed.''} \<union> set (status_notes rest)"
    by (auto simp: status_notes_def)
  show ?case
  proof (cases "which_at e (now st) (hd cmd)")
    case False
    have "(\<exists>runs. trace st' = trace ?st1 @ runs \<and> list_all check_run runs)
        \<and> files st' = files ?st1 \<and> service_proc st' = service_proc ?st1 \<and> now ?st1 \<le> now st'
        \<and> length ns' \<le> length (ns @ [?skip]) + length rest + 1
        \<and> (\<forall>n\<in>set ns'. n \<in> set (ns @ [?skip]) \<or> n \<in> set (status_notes rest) \<or> (\<exists>out. n = trim out 1200))"
      using "2.IH"(1)[OF w[symmetric] _ _ nc(2)] False "2.prems"(1) by (simp add: w)
    then show ?thesis unfolding sn by auto
  next
    case True
    show ?thesis
    proof (cases rok)
      case False
      then have "st' = st2" "ns' = ns @ [name @ u '' failed.'', trim out 1200]"
        using True r "2.prems"(1) by (auto simp: w)
      then show ?thesis unfolding sn using rf dr by auto
    next
      case rok: True
      have "(\<exists>runs. trace st' = trace st2 @ runs \<and> list_all check_run runs)
        \<and> files st' = files st2 \<and> service_proc st' = service_proc st2 \<and> now st2 \<le> now st'
        \<and> length ns' \<le> length (ns @ [name @ u '' passed.'']) + length rest + 1
        \<and> (\<forall>n\<in>set ns'. n \<in> set (ns @ [name @ u '' passed.'']) \<or> n \<in> set (status_notes rest)
               \<or> (\<exists>out. n = trim out 1200))"
        using "2.IH"(2)[OF w[symmetric] _ r[symmetric] refl _ _ nc(2)] True rok "2.prems"(1) r
        by (simp add: w)
      then show ?thesis unfolding sn using rf dr by auto
    qed
  qed
qed

lemma verify_shape:
  assumes "verify e cwd st = ((ok, ns'), st')"
  shows "(\<exists>runs. trace st' = trace st @ runs \<and> list_all check_run runs)
    \<and> files st' = files st \<and> service_proc st' = service_proc st \<and> now st \<le> now st'
    \<and> length ns' \<le> 4
    \<and> (\<forall>n\<in>set ns'. n \<in> set (status_notes checks) \<or> (\<exists>out. n = trim out 1200))"
proof -
  have nc: "\<forall>c\<in>set checks. hd (snd c) \<noteq> u ''codex''"
    by (simp add: checks_def u_eq_iff)
  have len: "length checks = 3" by (simp add: checks_def)
  show ?thesis
    using verify_loop_shape[of e cwd checks 0 "[]" st ok ns' st', OF _ nc] assms
    by (simp add: verify_def len)
qed

lemma codex_timeout_bounds:
  "60 \<le> codex_timeout s" "codex_timeout s \<le> 900" "s \<le> 60 \<Longrightarrow> codex_timeout s = 60"
  "900 \<le> s \<Longrightarrow> codex_timeout s = 900" "60 \<le> s \<Longrightarrow> s \<le> 900 \<Longrightarrow> int (codex_timeout s) = s"
  by (simp_all add: codex_timeout_def)

lemma run_optional_codex_shape:
  assumes "run_optional_codex e p cwd timeout st = (r, st')"
  shows "(\<exists>cr. trace st' = trace st @ CallCodex (now st) p cwd timeout # cr
            \<and> (cr = [] \<or> cr = [Run (Suc (now st)) (codex_cmd p) cwd timeout]))
    \<and> files st' = files st \<and> service_proc st' = service_proc st \<and> now st < now st'"
proof (cases "which_at e (now st) (u ''codex'')")
  case False
  then show ?thesis using assms by (auto simp: run_optional_codex_def which_def)
next
  case True
  let ?st1 = "advance 1 (emit [CallCodex (now st) p cwd timeout] st)"
  have r: "run_cmd e (codex_cmd p) cwd timeout False ?st1 = (r, st')"
    using assms(1) True by (simp add: run_optional_codex_def which_def)
  show ?thesis
    using run_cmd_facts[OF r] by auto
qed

lemma feedback_chain_append:
  "feedback_chain req fb (xs @ ys)
     = (feedback_chain req fb xs \<and> feedback_chain req (last_feedback fb xs) ys)"
  by (induction req fb xs rule: feedback_chain.induct) auto

lemma last_feedback_runs: "list_all is_run evs \<Longrightarrow> last_feedback fb (evs @ rest) = last_feedback fb rest"
  by (induction fb evs rule: last_feedback.induct) auto

lemma codex_cmd_facts: "hd (codex_cmd p) = u ''codex''" "last (codex_cmd p) = p"
  by (simp_all add: codex_cmd_def)

lemma attempt_body_shape:
  assumes "attempt_body e req wt_dir deadline attempt ns fb st = (r, st')"
  shows "\<exists>t cr runs ok vn.
      trace st' = trace st @ CallCodex t (build_prompt req fb) wt_dir (codex_timeout (whole_seconds e deadline t))
                    # cr @ runs @ [Verified ok vn]
      \<and> (cr = [] \<or> cr = [Run (Suc t) (codex_cmd (build_prompt req fb)) wt_dir
                              (codex_timeout (whole_seconds e deadline t))])
      \<and> list_all check_run runs \<and> length vn \<le> 4
      \<and> (\<forall>n\<in>set vn. n \<in> set (status_notes checks) \<or> (\<exists>out. n = trim out 1200))
      \<and> files st' = files st \<and> service_proc st' = service_proc st \<and> now st < now st'
      \<and> (case r of Inl res \<Rightarrow> ok | Inr (a, ns1, fb1) \<Rightarrow> \<not> ok \<and> fb1 = join nl (lastn 8 vn))"
proof -
  let ?p = "build_prompt req fb"
  let ?st0 = "advance (clock_lag e (now st)) st"
  let ?t = "codex_timeout (whole_seconds e deadline (now ?st0))"
  obtain r1 st1 where c: "run_optional_codex e ?p wt_dir ?t ?st0 = (r1, st1)"
    by (metis surj_pair)
  obtain ok vn st2 where v: "verify e wt_dir st1 = ((ok, vn), st2)"
    by (metis surj_pair)
  from run_optional_codex_shape[OF c]
  obtain cr where c1: "trace st1 = trace st @ CallCodex (now ?st0) ?p wt_dir ?t # cr"
    "cr = [] \<or> cr = [Run (Suc (now ?st0)) (codex_cmd ?p) wt_dir ?t]"
    "files st1 = files st" "service_proc st1 = service_proc st" "now st < now st1"
    by auto
  from verify_shape[OF v]
  obtain runs where v1: "trace st2 = trace st1 @ runs"
    "list_all check_run runs" "files st2 = files st1" "service_proc st2 = service_proc st1" "now st1 \<le> now st2"
    "length vn \<le> 4" "\<forall>n\<in>set vn. n \<in> set (status_notes checks) \<or> (\<exists>out. n = trim out 1200)"
    by auto
  have st': "st' = emit [Verified ok vn] st2"
    using assms c v by (cases r1) (auto simp: attempt_body_def Let_def split: if_splits)
  have r: "case r of Inl res \<Rightarrow> ok | Inr (a, ns1, fb1) \<Rightarrow> \<not> ok \<and> fb1 = join nl (lastn 8 vn)"
    using assms c v by (cases r1) (auto simp: attempt_body_def Let_def split: if_splits)
  have "trace st' = trace st @ CallCodex (now ?st0) ?p wt_dir ?t # cr @ runs @ [Verified ok vn]"
    using st' c1 v1 by simp
  then show ?thesis
    using st' c1 v1 r
    by (intro exI[of _ "now ?st0"] exI[of _ cr] exI[of _ runs] exI[of _ ok] exI[of _ vn]) auto
qed

text \<open>What the loop asks of the notes of a verification.\<close>

lemma dv_loop_shape:
  assumes "dv_loop e req wt_dir deadline attempt ns fb st = (r, st')"
  shows "\<exists>evs. trace st' = trace st @ evs \<and> timeouts_coded e deadline call evs
      \<and> feedback_chain req fb evs \<and> fsops evs = []
      \<and> (\<forall>ok vn. Verified ok vn \<in> set evs \<longrightarrow>
            (\<forall>n\<in>set vn. n \<in> set (status_notes checks) \<or> (\<exists>out. n = trim out 1200)))
      \<and> files st' = files st \<and> service_proc st' = service_proc st"
  using assms
proof (induction e req wt_dir deadline attempt ns fb st arbitrary: call rule: dv_loop.induct)
  case (1 e req wt_dir deadline attempt ns fb st)
  show ?case
  proof (cases "now st < deadline")
    case False
    then show ?thesis using "1.prems" by (simp add: dv_loop.simps)
  next
    case True
    obtain x st1 where b: "attempt_body e req wt_dir deadline attempt ns fb st = (x, st1)"
      by (metis surj_pair)
    from attempt_body_shape[OF b]
    obtain t cr runs ok vn where s:
      "trace st1 = trace st @ CallCodex t (build_prompt req fb) wt_dir (codex_timeout (whole_seconds e deadline t))
                    # cr @ runs @ [Verified ok vn]"
      "cr = [] \<or> cr = [Run (Suc t) (codex_cmd (build_prompt req fb)) wt_dir
                              (codex_timeout (whole_seconds e deadline t))]"
      "list_all check_run runs" "length vn \<le> 4"
      "\<forall>n\<in>set vn. n \<in> set (status_notes checks) \<or> (\<exists>out. n = trim out 1200)"
      "files st1 = files st" "service_proc st1 = service_proc st"
      "case x of Inl res \<Rightarrow> ok | Inr (a, ns1, fb1) \<Rightarrow> \<not> ok \<and> fb1 = join nl (lastn 8 vn)"
      by blast
    let ?first = "CallCodex t (build_prompt req fb) wt_dir (codex_timeout (whole_seconds e deadline t))
                    # cr @ runs @ [Verified ok vn]"
    have runs: "list_all is_run cr" "list_all is_run runs"
      using s(2,3) check_run_is_run by auto
    have coded: "timeouts_coded e deadline call (?first @ rest) = timeouts_coded e deadline None rest" for rest
      using s(2) by (auto simp: timeouts_coded_checks[OF s(3)] codex_cmd_facts)
    have chain: "feedback_chain req fb ?first"
      using runs s(4) by (simp add: feedback_chain_runs)
    have lastfb: "last_feedback fb ?first = join nl (lastn 8 vn)"
      using runs by (simp add: last_feedback_runs)
    have quiet: "fsops ?first = []"
      using runs by (simp add: fsops_runs)
    have vfirst: "Verified ok' vn' \<in> set ?first \<Longrightarrow> vn' = vn" for ok' vn'
      using runs by (auto simp: list_all_iff)
    show ?thesis
    proof (cases x)
      case (Inl res)
      then have "st' = st1" using "1.prems" True b by (simp add: dv_loop.simps)
      moreover have "timeouts_coded e deadline call ?first"
        using coded[of "[]"] by simp
      ultimately show ?thesis
        using s chain quiet vfirst by (intro exI[of _ ?first]) (simp, blast)
    next
      case (Inr y)
      obtain a ns1 fb1 where y: "y = (a, ns1, fb1)" by (cases y) auto
      have fb1: "fb1 = join nl (lastn 8 vn)" using s(8) Inr y by simp
      have rec: "dv_loop e req wt_dir deadline a ns1 fb1 st1 = (r, st')"
        using "1.prems" True b Inr y by (simp add: dv_loop.simps)
      from "1.IH"[OF True b[symmetric] Inr y[symmetric] refl rec, of None]
      obtain evs2 where e2: "trace st' = trace st1 @ evs2" "timeouts_coded e deadline None evs2"
        "feedback_chain req fb1 evs2" "fsops evs2 = []"
        "\<forall>ok vn. Verified ok vn \<in> set evs2 \<longrightarrow>
            (\<forall>n\<in>set vn. n \<in> set (status_notes checks) \<or> (\<exists>out. n = trim out 1200))"
        "files st' = files st1" "service_proc st' = service_proc st1"
        by blast
      have fc: "feedback_chain req fb (?first @ evs2)"
        using chain lastfb e2(3) fb1 by (simp only: feedback_chain_append)
      have tc: "timeouts_coded e deadline call (?first @ evs2)"
        using coded[of evs2] e2(2) by simp
      have vs: "\<forall>ok' vn'. Verified ok' vn' \<in> set (?first @ evs2) \<longrightarrow>
            (\<forall>n\<in>set vn'. n \<in> set (status_notes checks) \<or> (\<exists>out. n = trim out 1200))"
        using vfirst s(5) e2(5) by (metis Un_iff set_append)
      have tr: "trace st' = trace st @ (?first @ evs2)"
        using s(1) e2(1) by simp
      have q: "fsops (?first @ evs2) = []"
        using quiet e2(4) by (simp only: fsops_append) simp
      have f: "files st' = files st" "service_proc st' = service_proc st"
        using s(6,7) e2(6,7) by simp_all
      show ?thesis
        using tr tc fc q vs f by (intro exI[of _ "?first @ evs2"]) blast
    qed
  qed
qed


section \<open>The develop-verify loop\<close>

lemma u_append: "u a @ u b = u (a @ b)" "u a @ u b @ x = u (a @ b) @ x"
  by (simp_all add: u_def)

lemmas ex_defs = ex_env_def ex_cfg_def ex_req_def ex_state_def ex_bare_def
lemmas run_defs = develop_and_verify_def dv_loop.simps attempt_body_def run_optional_codex_def which_def
  run_cmd_def verify_def checks_def emit_def advance_def Let_def codex_cmd_def u_eq_iff tps_def
  codex_timeout_def appended_def u_append

lemma slow_trace:
  "appended ex_state (snd (develop_and_verify (ex_env ex_slow) ex_cfg ex_req [u ''wt''] ex_state))
   = [CallCodex 0 (build_prompt ex_req []) [u ''wt''] 900,
      Run 1 (codex_cmd (build_prompt ex_req [])) [u ''wt''] 900,
      Run 900000002 [u ''python3'', u ''-m'', u ''compileall'', u ''nanobot''] [u ''wt''] 600,
      Run 1500000003 [u ''ruff'', u ''check'', u ''.''] [u ''wt''] 600,
      Run 1500000004 [u ''pytest'', u ''-q''] [u ''wt''] 600,
      Verified True [u ''compile passed.'', u ''ruff passed.'', u ''pytest passed.'']]"
  by (simp add: ex_defs run_defs ex_slow_def)

lemma failing_prompts:
  "prompts (appended ex_state (snd (develop_and_verify (ex_env ex_failing) ex_cfg ex_req [u ''wt''] ex_state)))
   = [build_prompt ex_req [], build_prompt ex_req (join nl [u ''compile failed.'', ex_output])]"
  by (simp add: ex_defs run_defs ex_failing_def trim_def ex_output_def length_u nl_def lastn_def)

lemma failing_feedback_lines: "line_count (join nl [u ''compile failed.'', ex_output]) = 11"
  by (simp add: line_count_def ex_output_def nl_def u_def)

lemma verify_no_tools:
  assumes "\<forall>t. \<not> which_at e t (u ''python3'') \<and> \<not> which_at e t (u ''ruff'') \<and> \<not> which_at e t (u ''pytest'')"
  shows "verify e cwd st =
    ((False, [u ''Skipped compile: '' @ [39] @ u ''python3'' @ [39] @ u '' not found.'',
              u ''Skipped ruff: '' @ [39] @ u ''ruff'' @ [39] @ u '' not found.'',
              u ''Skipped pytest: '' @ [39] @ u ''pytest'' @ [39] @ u '' not found.'',
              u ''No verification tools available.'']), advance 3 st)"
  using assms by (simp add: verify_def checks_def which_def advance_def u_append)

lemma dv_loop_no_tools:
  assumes "\<forall>t. \<not> which_at e t (u ''python3'') \<and> \<not> which_at e t (u ''ruff'') \<and> \<not> which_at e t (u ''pytest'')"
  shows "\<not> fst (fst (dv_loop e req wt_dir deadline attempt ns fb st))"
  using assms
proof (induction e req wt_dir deadline attempt ns fb st rule: dv_loop.induct)
  case (1 e req wt_dir deadline attempt ns fb st)
  note absent = "1.prems"
  show ?case
  proof (cases "now st < deadline")
    case False
    then show ?thesis by (simp add: dv_loop.simps)
  next
    case True
    obtain x st1 where b: "attempt_body e req wt_dir deadline attempt ns fb st = (x, st1)"
      by (metis surj_pair)
    have "\<exists>y. x = Inr y"
      using b by (auto simp: attempt_body_def Let_def verify_no_tools[OF absent] split: prod.splits)
    then obtain a ns1 fb1 where x: "x = Inr (a, ns1, fb1)"
      by (metis prod_cases3)
    show ?thesis
      using "1.IH"[OF True b[symmetric] x refl refl absent] True b x
      by (simp add: dv_loop.simps)
  qed
qed


text \<open>
  C4. When none of the three executables of the checks is on the search path, \<open>_verify\<close>
  returns failure, the develop-verify loop returns failure, and the task is recorded as
  failed without \<open>_deploy\<close> being entered.
\<close>

theorem unverifiable_fails:
  assumes "\<forall>t. \<not> which_at e t (u ''python3'') \<and> \<not> which_at e t (u ''ruff'') \<and> \<not> which_at e t (u ''pytest'')"
  shows "fst (fst (verify e cwd st)) = False
    \<and> last (snd (fst (verify e cwd st))) = u ''No verification tools available.''
    \<and> fst (fst (develop_and_verify e cfg req wt_dir st)) = False
    \<and> in_sandbox e cfg req wt_dir st
        = (Inr (), write_task_md e cfg req (u ''FAILED'') (snd (fst (develop_and_verify e cfg req wt_dir st)))
                     (snd (develop_and_verify e cfg req wt_dir st)))"
proof -
  have dv: "\<not> fst (fst (develop_and_verify e cfg req wt_dir st))"
    using dv_loop_no_tools[OF assms] by (simp add: develop_and_verify_def)
  obtain ok ns st1 where r: "develop_and_verify e cfg req wt_dir st = ((ok, ns), st1)"
    by (metis surj_pair)
  have "in_sandbox e cfg req wt_dir st
        = (Inr (), write_task_md e cfg req (u ''FAILED'') (snd (fst (develop_and_verify e cfg req wt_dir st)))
                     (snd (develop_and_verify e cfg req wt_dir st)))"
    using dv r by (simp add: in_sandbox_def)
  then show ?thesis
    using dv by (simp add: verify_no_tools[OF assms])
qed

theorem unverifiable_fails_witness:
  "fst (fst (verify ex_bare [u ''wt''] ex_state)) = False
   \<and> fst (fst (develop_and_verify ex_bare ex_cfg ex_req [u ''wt''] ex_state)) = False"
proof -
  have "\<forall>t. \<not> which_at ex_bare t (u ''python3'') \<and> \<not> which_at ex_bare t (u ''ruff'')
          \<and> \<not> which_at ex_bare t (u ''pytest'')"
    by (simp add: ex_bare_def ex_env_def)
  then show ?thesis
    using unverifiable_fails[of ex_bare "[u ''wt'']" ex_state ex_cfg ex_req "[u ''wt'']"] by blast
qed

text \<open>
  The second reading of the clock decides the timeout: with 128 seconds of budget and
  one tick between the two readings, the generation step is given 127 seconds.
\<close>

lemma late_reading:
  "appended ex_state
     (snd (develop_and_verify ((ex_env ex_quick)\<lparr>clock_lag := (\<lambda>t. 1)\<rparr>) (ex_cfg\<lparr>build_timeout_s := 128\<rparr>)
             ex_req [u ''wt''] ex_state))
   = [CallCodex 1 (build_prompt ex_req []) [u ''wt''] 127,
      Run 2 (codex_cmd (build_prompt ex_req [])) [u ''wt''] 127,
      Run 3 [u ''python3'', u ''-m'', u ''compileall'', u ''nanobot''] [u ''wt''] 600,
      Run 4 [u ''ruff'', u ''check'', u ''.''] [u ''wt''] 600,
      Run 5 [u ''pytest'', u ''-q''] [u ''wt''] 600,
      Verified True [u ''compile passed.'', u ''ruff passed.'', u ''pytest passed.'']]"
  by (simp add: ex_defs run_defs ex_quick_def)




lemma feedback_chain_notes:
  "feedback_chain req fb evs \<Longrightarrow> Verified ok vn \<in> set evs \<Longrightarrow> length vn \<le> 4"
  by (induction req fb evs rule: feedback_chain.induct) auto




section \<open>The task store\<close>

lemma Nil_u_iff: "[] = u a \<longleftrightarrow> a = []"
  by (simp add: u_def)

lemma dirs_differ:
  "queue cfg \<noteq> tasks cfg" "queue cfg \<noteq> backups cfg" "tasks cfg \<noteq> backups cfg"
  by (simp_all add: queue_def tasks_def backups_def u_eq_iff)

lemma paths_differ:
  "req_path cfg req \<noteq> task_md_path cfg req'"
  "\<not> in_queue cfg (task_md_path cfg req)" "\<not> in_queue cfg (backup_patch cfg req)"
  "\<not> in_queue cfg (rollback_patch cfg req)" "in_queue cfg (req_path cfg req)"
  "backup_patch cfg req \<noteq> rollback_patch cfg req"
  using dirs_differ[of cfg]
  by (auto simp: req_path_def task_md_path_def in_queue_def backup_patch_def rollback_patch_def u_eq_iff)

lemma map_of_update [simp]: "map_of (AList.update k v al) = (map_of al)(k \<mapsto> v)"
  by (rule update_conv')

lemma apply_write_text:
  "map_of (apply_ops fs (write_text_ops p c)) = (map_of fs)(p \<mapsto> c)"
  by (simp add: apply_ops_def write_text_ops_def)

lemma apply_ops_append [simp]: "apply_ops fs (xs @ ys) = apply_ops (apply_ops fs xs) ys"
  by (simp add: apply_ops_def)

text \<open>
  C2, as the code has it. \<open>enqueue\<close> and \<open>write_task_md\<close> open the target file itself
  and write the text into it: a truncation and then the data, for the queue entry and
  then for the task record. No temporary file and no rename is involved. When the write
  is over the file holds the complete new version; after its first step the file is
  empty.
\<close>

theorem writes_in_place:
  "enqueue_ops cfg req updated
     = [Truncate (req_path cfg req), WriteData (req_path cfg req) (Json req),
        Truncate (task_md_path cfg req),
        WriteData (task_md_path cfg req) (Text (task_md_text req (u ''QUEUED'') [u ''Task queued.''] updated))]
   \<and> write_task_md_ops cfg req status ns updated
     = [Truncate (task_md_path cfg req), WriteData (task_md_path cfg req) (Text (task_md_text req status ns updated))]
   \<and> files (snd (enqueue e cfg req st)) = apply_ops (files st) (enqueue_ops cfg req (utc_iso e (now st)))
   \<and> files (write_task_md e cfg req status ns st)
       = apply_ops (files st) (write_task_md_ops cfg req status ns (utc_iso e (now st)))
   \<and> list_all (\<lambda>op. \<not> is_rename op \<and> target op \<in> {req_path cfg req, task_md_path cfg req})
        (enqueue_ops cfg req updated @ write_task_md_ops cfg req status ns updated)
   \<and> map_of (apply_ops fs (enqueue_ops cfg req updated)) (req_path cfg req) = Some (Json req)
   \<and> map_of (apply_ops fs (write_task_md_ops cfg req status ns updated)) (task_md_path cfg req)
       = Some (Text (task_md_text req status ns updated))
   \<and> map_of (observable fs (enqueue_ops cfg req updated) ! 1) (req_path cfg req) = Some (Text [])
   \<and> map_of (observable fs (write_task_md_ops cfg req status ns updated) ! 1) (task_md_path cfg req)
       = Some (Text [])"
  using paths_differ(1)[of cfg req req]
  by (simp add: enqueue_ops_def write_task_md_ops_def write_text_ops_def enqueue_def write_task_md_def
      apply_ops_def)


theorem writes_in_place_witness:
  "map_of (apply_ops [] (enqueue_ops ex_cfg ex_req (u ''T''))) (req_path ex_cfg ex_req) = Some (Json ex_req)
   \<and> map_of (observable [] (enqueue_ops ex_cfg ex_req (u ''T'')) ! 1) (req_path ex_cfg ex_req) = Some (Text [])"
  using writes_in_place[of ex_cfg ex_req "u ''T''" "u ''QUEUED''" "[]" "ex_env ex_slow" ex_state "[]"]
  by blast

text \<open>
  C2 as stated fails: while a record that held \<open>old\<close> is rewritten, and while a new
  queue entry is written, a reader can find the file empty, which is neither the prior
  version nor the new one.
\<close>

theorem writes_in_place_counterexample:
  "map_of (observable [(task_md_path ex_cfg ex_req, Text (u ''old''))]
             (write_task_md_ops ex_cfg ex_req (u ''FAILED'') [] (u ''T'')) ! 1) (task_md_path ex_cfg ex_req)
     = Some (Text [])
   \<and> Text [] \<noteq> Text (u ''old'')
   \<and> Text [] \<noteq> Text (task_md_text ex_req (u ''FAILED'') [] (u ''T''))
   \<and> map_of (observable [] (enqueue_ops ex_cfg ex_req (u ''T'')) ! 1) (req_path ex_cfg ex_req) = Some (Text [])
   \<and> map_of [] (req_path ex_cfg ex_req) \<noteq> Some (Text [])
   \<and> Text [] \<noteq> Json ex_req"
  by (simp add: write_task_md_ops_def enqueue_ops_def write_text_ops_def task_md_text_def nl_def
      u_Nil_iff Nil_u_iff)

lemma process_non_core:
  assumes "scope req \<noteq> u ''core''"
  shows "process e cfg req st
    = (Inr (), write_task_md e cfg req (u ''REJECTED'')
                 [u ''Non-core task: should be handled by skill installation/update pipeline.''] st)"
  using assms by (simp add: process_def)

text \<open>
  C7. For a request whose scope is not \<open>core\<close>, \<open>_process\<close> returns normally after
  exactly two events, the truncation and the write of the task record with the status
  \<open>REJECTED\<close>: no child process is run (no worktree, no generation step, no check), no
  patch is written, the clock and the service handle are as before, and every file but
  the task record is as before.
\<close>

theorem non_core_rejected:
  assumes "scope req \<noteq> u ''core''"
  shows "fst (process e cfg req st) = Inr ()
    \<and> appended st (snd (process e cfg req st))
        = [Fs (Truncate (task_md_path cfg req)),
           Fs (WriteData (task_md_path cfg req)
                 (Text (task_md_text req (u ''REJECTED'')
                          [u ''Non-core task: should be handled by skill installation/update pipeline.'']
                          (utc_iso e (now st)))))]
    \<and> now (snd (process e cfg req st)) = now st
    \<and> service_proc (snd (process e cfg req st)) = service_proc st
    \<and> map_of (files (snd (process e cfg req st)))
        = (map_of (files st))(task_md_path cfg req \<mapsto>
             Text (task_md_text req (u ''REJECTED'')
                     [u ''Non-core task: should be handled by skill installation/update pipeline.'']
                     (utc_iso e (now st))))"
  by (simp add: process_non_core[OF assms] write_task_md_def write_task_md_ops_def write_text_ops_def
      apply_ops_def)

theorem non_core_rejected_witness:
  "fst (process (ex_env ex_slow) ex_cfg ex_skill ex_state) = Inr ()
   \<and> appended ex_state (snd (process (ex_env ex_slow) ex_cfg ex_skill ex_state))
        = [Fs (Truncate (task_md_path ex_cfg ex_skill)),
           Fs (WriteData (task_md_path ex_cfg ex_skill)
                 (Text (task_md_text ex_skill (u ''REJECTED'')
                          [u ''Non-core task: should be handled by skill installation/update pipeline.'']
                          (u ''T''))))]"
proof -
  have "scope ex_skill \<noteq> u ''core''"
    by (simp add: ex_skill_def ex_req_def u_eq_iff)
  from non_core_rejected[OF this, of "ex_env ex_slow" ex_cfg ex_state] show ?thesis
    by (simp add: ex_env_def ex_state_def)
qed

lemma join_ended: "xs \<noteq> [] \<Longrightarrow> join sep xs @ sep = concat (map (\<lambda>l. l @ sep) xs)"
  by (induction sep xs rule: join.induct) simp_all

lemma task_md_text_notes:
  "task_md_text req status ns updated
     = task_md_text req status [] updated @ concat (map (\<lambda>n. u ''- '' @ n @ nl) ns)"
proof -
  have a: "task_md_lines req status ns updated \<noteq> []" by (simp add: task_md_lines_def)
  have b: "task_md_lines req status [] updated \<noteq> []" by (simp add: task_md_lines_def)
  have c: "task_md_lines req status ns updated
             = task_md_lines req status [] updated @ map (\<lambda>n. u ''- '' @ n) ns"
    by (simp add: task_md_lines_def)
  show ?thesis
    unfolding task_md_text_def join_ended[OF a] join_ended[OF b]
    by (simp add: c comp_def)
qed

text \<open>
  C5, as the code has it. Every write of the task record replaces the notes. The text
  written is the text of the record with no notes (the heading, the fields, the
  prompt and the heading \<open>## Notes\<close>, each ended by a newline), followed by
  \<open>"- " + note + "\n"\<close> for each note passed with this write, in their order; a note
  or a prompt of several lines takes several lines of the text. The text depends on
  the request, the status, the notes passed and the time alone, so nothing of what
  the record held before is kept.
\<close>

theorem notes_replaced:
  "map_of (files (write_task_md e cfg req status ns st)) (task_md_path cfg req)
     = Some (Text (task_md_text req status ns (utc_iso e (now st))))
   \<and> task_md_text req status ns updated
       = task_md_text req status [] updated @ concat (map (\<lambda>n. u ''- '' @ n @ nl) ns)"
  using task_md_text_notes[of req status ns updated]
  by (simp add: write_task_md_def write_task_md_ops_def write_text_ops_def apply_ops_def)

theorem notes_replaced_witness:
  "task_md_text ex_req (u ''FAILED'') [u ''Repo not clean: M x.py''] (u ''T'')
     = task_md_text ex_req (u ''FAILED'') [] (u ''T'') @ u ''- Repo not clean: M x.py'' @ nl"
  using notes_replaced[of "ex_env ex_slow" ex_cfg ex_req "u ''FAILED''" "[u ''Repo not clean: M x.py'']" ex_state "u ''T''"]
  by (simp add: u_append)

lemma queued_then_rejected:
  "map_of (files (snd (enqueue (ex_env ex_slow) ex_cfg ex_skill ex_state))) (task_md_path ex_cfg ex_skill)
     = Some (Text (task_md_text ex_skill (u ''QUEUED'') [u ''Task queued.''] (u ''T'')))
   \<and> map_of (files (snd (process (ex_env ex_slow) ex_cfg ex_skill
                            (snd (enqueue (ex_env ex_slow) ex_cfg ex_skill ex_state)))))
        (task_md_path ex_cfg ex_skill)
     = Some (Text (task_md_text ex_skill (u ''REJECTED'')
                     [u ''Non-core task: should be handled by skill installation/update pipeline.''] (u ''T'')))"
proof -
  have s: "scope ex_skill \<noteq> u ''core''"
    by (simp add: ex_skill_def ex_req_def u_eq_iff)
  show ?thesis
    using paths_differ(1)[of ex_cfg ex_skill ex_skill]
    by (simp add: process_non_core[OF s] write_task_md_def enqueue_def enqueue_ops_def
        write_task_md_ops_def write_text_ops_def apply_ops_def ex_env_def ex_state_def)
qed

lemma notes_of_examples:
  "notes_of_md (task_md_text ex_skill (u ''QUEUED'') [u ''Task queued.''] (u ''T'')) = [u ''- Task queued.'']
   \<and> notes_of_md (task_md_text ex_skill (u ''REJECTED'')
                     [u ''Non-core task: should be handled by skill installation/update pipeline.''] (u ''T''))
       = [u ''- Non-core task: should be handled by skill installation/update pipeline.'']"
  by (simp add: notes_of_md_def task_md_text_def task_md_lines_def ex_skill_def ex_req_def nl_def u_def)


text \<open>
  C5 as stated fails on the first transition of any task: the record written by
  \<open>enqueue\<close> holds the note \<open>Task queued.\<close>, and the record written when the task is
  rejected holds the rejection note alone.
\<close>

theorem notes_replaced_counterexample:
  "map_of (files (snd (enqueue (ex_env ex_slow) ex_cfg ex_skill ex_state))) (task_md_path ex_cfg ex_skill)
     = Some (Text (task_md_text ex_skill (u ''QUEUED'') [u ''Task queued.''] (u ''T'')))
   \<and> notes_of_md (task_md_text ex_skill (u ''QUEUED'') [u ''Task queued.''] (u ''T'')) = [u ''- Task queued.'']
   \<and> map_of (files (snd (process (ex_env ex_slow) ex_cfg ex_skill
                            (snd (enqueue (ex_env ex_slow) ex_cfg ex_skill ex_state)))))
        (task_md_path ex_cfg ex_skill)
     = Some (Text (task_md_text ex_skill (u ''REJECTED'')
                     [u ''Non-core task: should be handled by skill installation/update pipeline.''] (u ''T'')))
   \<and> notes_of_md (task_md_text ex_skill (u ''REJECTED'')
                     [u ''Non-core task: should be handled by skill installation/update pipeline.''] (u ''T''))
       = [u ''- Non-core task: should be handled by skill installation/update pipeline.'']
   \<and> u ''- Task queued.'' \<noteq> u ''- Non-core task: should be handled by skill installation/update pipeline.''"
  using queued_then_rejected notes_of_examples by (simp add: u_eq_iff)

section \<open>Deploy, processing and the polling loop\<close>

lemma growsI:
  assumes "trace st' = trace st @ evs" "list_all P (fsops evs)"
    "\<And>p. map_of (files st) p \<noteq> None \<Longrightarrow> map_of (files st') p \<noteq> None"
  shows "grows P st st'"
  using assms unfolding grows_def by blast

lemma grows_quiet:
  assumes "trace st' = trace st @ evs" "fsops evs = []" "files st' = files st"
  shows "grows P st st'"
  using assms by (intro growsI[of st' st evs]) auto

lemma grows_refl: "grows P st st"
  by (rule grows_quiet[of st st "[]"]) auto

lemma grows_trans:
  assumes "grows P a b" and "grows P b c"
  shows "grows P a c"
proof -
  obtain xs where xs: "trace b = trace a @ xs" "list_all P (fsops xs)"
    using assms(1) unfolding grows_def by blast
  obtain ys where ys: "trace c = trace b @ ys" "list_all P (fsops ys)"
    using assms(2) unfolding grows_def by blast
  have "trace c = trace a @ (xs @ ys)" "list_all P (fsops (xs @ ys))"
    using xs ys by simp_all
  then show ?thesis
    using assms unfolding grows_def by blast
qed

lemma grows_mono: "grows P a b \<Longrightarrow> (\<And>op. P op \<Longrightarrow> Q op) \<Longrightarrow> grows Q a b"
  unfolding grows_def by (auto simp: list_all_iff)

lemma grows_service_proc [simp]: "grows P st (st'\<lparr>service_proc := x\<rparr>) = grows P st st'"
  by (simp add: grows_def)

lemma grows_prefix: "grows P st st' \<Longrightarrow> \<exists>evs. trace st' = trace st @ evs"
  unfolding grows_def by blast

lemma grows_write_text:
  assumes "P (Truncate p)" "P (WriteData p c)"
  shows "grows P st (write_text p c st)"
  using assms
  by (intro growsI[of _ _ "map Fs (write_text_ops p c)"])
     (auto simp: write_text_def write_text_ops_def apply_ops_def)

lemma grows_write_task_md:
  assumes "P (Truncate (task_md_path cfg req))" "\<And>c. P (WriteData (task_md_path cfg req) c)"
  shows "grows P st (write_task_md e cfg req status ns st)"
  using assms
  by (intro growsI[of _ _ "map Fs (write_task_md_ops cfg req status ns (utc_iso e (now st)))"])
     (auto simp: write_task_md_def write_task_md_ops_def write_text_ops_def apply_ops_def)

lemma grows_run_cmd: "run_cmd e cmd cwd timeout check st = (r, st') \<Longrightarrow> grows P st st'"
  using run_cmd_facts[of e cmd cwd timeout check st r st']
  by (intro grows_quiet[of st' st "[Run (now st) cmd cwd timeout]"]) auto

lemma grows_terminate: "grows P st (terminate_process e pid st)"
proof -
  have "\<exists>evs. trace (terminate_process e pid st) = trace st @ evs \<and> fsops evs = []
          \<and> files (terminate_process e pid st) = files st"
    by (auto simp: terminate_process_def Let_def split: term_behaviour.splits)
  then show ?thesis using grows_quiet by blast
qed

lemma grows_stop: "grows P st (stop_service e st)"
  by (cases "service_proc st") (auto simp: stop_service_def grows_refl grows_terminate)

lemma grows_start: "start_service e cfg st = (r, st') \<Longrightarrow> grows P st st'"
proof -
  assume a: "start_service e cfg st = (r, st')"
  have "\<exists>evs. trace st' = trace st @ evs \<and> fsops evs = [] \<and> files st' = files st"
    using a by (auto simp: start_service_def Let_def split: sum.splits)
  then show ?thesis using grows_quiet by blast
qed

lemma grows_ensure: "ensure_service_running e cfg st = (r, st') \<Longrightarrow> grows P st st'"
  by (auto simp: ensure_service_running_def grows_refl split: if_splits prod.splits sum.splits
      dest: grows_start)

lemma grows_develop: "develop_and_verify e cfg req wt_dir st = (r, st') \<Longrightarrow> grows P st st'"
proof -
  assume "develop_and_verify e cfg req wt_dir st = (r, st')"
  then have d: "dv_loop e req wt_dir (now st + build_timeout_s cfg * tps) 0 [] [] st = (r, st')"
    by (simp add: develop_and_verify_def)
  from dv_loop_shape[OF d] show ?thesis
    using grows_quiet by blast
qed

lemma grows_repo_is_clean: "repo_is_clean e cfg st = (r, st') \<Longrightarrow> grows P st st'"
  by (auto simp: repo_is_clean_def Let_def split: prod.splits if_splits dest: grows_run_cmd)

lemma grows_rollback: "rollback e cfg req old_proc ns st = (r, st') \<Longrightarrow> grows P st st'"
proof -
  assume a: "rollback e cfg req old_proc ns st = (r, st')"
  obtain r1 st1 where r1: "run_cmd e (reverse_cmd cfg req) (repo_root cfg) 120 False st = (r1, st1)"
    by (metis surj_pair)
  obtain r2 st2 where r2: "start_service e cfg (stop_service e st1) = (r2, st2)"
    by (metis surj_pair)
  have g2: "grows P st st2"
    using grows_run_cmd[OF r1] grows_stop[of P st1 e] grows_start[OF r2] grows_trans by blast
  show ?thesis
  proof (cases r2)
    case (Inl err)
    then show ?thesis using a r1 r2 g2 by (simp add: rollback_def Let_def)
  next
    case (Inr started)
    then have "st' = st2 \<or> (\<exists>pid. st' = terminate_process e pid st2)"
      using a r1 r2 by (auto simp: rollback_def Let_def split: option.splits if_splits)
    then show ?thesis using g2 grows_terminate grows_trans by blast
  qed
qed

lemma grows_cutover: "cutover e cfg req ns st = (r, st') \<Longrightarrow> grows P st st'"
proof -
  assume a: "cutover e cfg req ns st = (r, st')"
  obtain r1 st1 where r1: "start_service e cfg (stop_service e st) = (r1, st1)"
    by (metis surj_pair)
  have g1: "grows P st st1"
    using grows_stop[of P st e] grows_start[OF r1] grows_trans by blast
  show ?thesis
  proof (cases r1)
    case (Inl err)
    then show ?thesis using a r1 g1 by (simp add: cutover_def Let_def)
  next
    case (Inr started)
    then have "st' = st1 \<or> (\<exists>x y. rollback e cfg req x y st1 = (r, st'))"
      using a r1 by (auto simp: cutover_def Let_def split: if_splits)
    then show ?thesis using g1 grows_rollback grows_trans by blast
  qed
qed


lemma precedes_hit: "\<not> B x \<Longrightarrow> A x \<Longrightarrow> precedes A B (x # xs)"
  by simp

lemma not_apply:
  "\<not> is_live_apply cfg (Run t [u ''git'', u ''diff'', u ''--binary'', u ''HEAD''] cwd timeout)"
  "\<not> is_forward_apply cfg req (Run t [u ''git'', u ''diff'', u ''--binary'', u ''HEAD''] cwd timeout)"
  "is_live_apply cfg (Run t (apply_cmd cfg req) (repo_root cfg) timeout)"
  "is_forward_apply cfg req (Run t (apply_cmd cfg req) (repo_root cfg) timeout)"
  by (simp_all add: apply_cmd_def u_eq_iff)

lemma run_cmd_result:
  "run_cmd e cmd cwd timeout check st = (r, st') \<Longrightarrow> r = cmd_result e (now st) cmd cwd timeout check"
  by (auto simp: cmd_result_def run_cmd_def Let_def split: proc_behaviour.splits if_splits)

lemma quiet_events:
  "fsops evs = [] \<Longrightarrow> list_all (\<lambda>ev. \<not> writes p ev) evs \<and> list_all (\<lambda>ev. ev \<noteq> Fs op) evs"
  by (induction evs rule: fsops.induct) simp_all

lemma precedes_quiet: "list_all (\<lambda>y. \<not> B y) xs \<Longrightarrow> precedes A B xs"
  by (induction xs) simp_all

lemma none_after_quiet: "list_all (\<lambda>y. \<not> B y) xs \<Longrightarrow> none_after A B xs"
  by (induction xs) simp_all

lemma quiet_cutover:
  assumes "cutover e cfg req ns st = (r, st')"
  shows "\<exists>evs. trace st' = trace st @ evs \<and> fsops evs = []"
proof -
  have "grows (\<lambda>op. False) st st'" using grows_cutover[OF assms] .
  then show ?thesis unfolding grows_def by (auto simp: list_all_iff)
qed

lemma deploy_shape:
  assumes "deploy e cfg req wt_dir st = (r, st')"
  shows "\<exists>diff t2.
    appended st st' = [Run (now st) [u ''git'', u ''diff'', u ''--binary'', u ''HEAD''] wt_dir 120]
    \<or> appended st st' = [Run (now st) [u ''git'', u ''diff'', u ''--binary'', u ''HEAD''] wt_dir 120,
          Fs (Truncate (backup_patch cfg req)), Fs (WriteData (backup_patch cfg req) (Text diff)),
          Run t2 (apply_cmd cfg req) (repo_root cfg) 120]
       \<and> \<not> fst (cmd_result e t2 (apply_cmd cfg req) (repo_root cfg) 120 False)
    \<or> (\<exists>t3 ok3 rev cut.
          appended st st' = [Run (now st) [u ''git'', u ''diff'', u ''--binary'', u ''HEAD''] wt_dir 120,
            Fs (Truncate (backup_patch cfg req)), Fs (WriteData (backup_patch cfg req) (Text diff)),
            Run t2 (apply_cmd cfg req) (repo_root cfg) 120,
            Run t3 staged_cmd (repo_root cfg) 120]
            @ (if ok3 \<and> strip (db e) rev \<noteq> []
               then [Fs (Truncate (rollback_patch cfg req)), Fs (WriteData (rollback_patch cfg req) (Text rev))]
               else [])
            @ cut
          \<and> fst (cmd_result e t2 (apply_cmd cfg req) (repo_root cfg) 120 False)
          \<and> cmd_result e t3 staged_cmd (repo_root cfg) 120 False = (ok3, rev)
          \<and> fsops cut = [])"
proof -
  let ?R1 = "Run (now st) [u ''git'', u ''diff'', u ''--binary'', u ''HEAD''] wt_dir 120"
  obtain ok1 diff st1 where r1:
    "run_cmd e [u ''git'', u ''diff'', u ''--binary'', u ''HEAD''] wt_dir 120 False st = ((ok1, diff), st1)"
    by (metis surj_pair)
  note f1 = run_cmd_facts[OF r1]
  let ?st2 = "write_text (backup_patch cfg req) (Text diff) st1"
  let ?T = "Fs (Truncate (backup_patch cfg req))"
  let ?W = "Fs (WriteData (backup_patch cfg req) (Text diff))"
  have t2: "trace ?st2 = trace st @ [?R1, ?T, ?W]"
    using f1 by (simp add: write_text_def write_text_ops_def)
  obtain ok2 out st3 where r2:
    "run_cmd e (apply_cmd cfg req) (repo_root cfg) 120 False ?st2 = ((ok2, out), st3)"
    by (metis surj_pair)
  note f2 = run_cmd_facts[OF r2]
  let ?R2 = "Run (now ?st2) (apply_cmd cfg req) (repo_root cfg) 120"
  have t3: "trace st3 = trace st @ [?R1, ?T, ?W, ?R2]"
    using f2 t2 by simp
  have ok2: "ok2 = fst (cmd_result e (now ?st2) (apply_cmd cfg req) (repo_root cfg) 120 False)"
    using run_cmd_result[OF r2] by (metis fst_conv)
  show ?thesis
  proof (cases "ok1 \<and> strip (db e) diff \<noteq> []")
    case False
    then have "st' = st1"
      using assms r1 by (auto simp: deploy_def split: if_splits)
    then have "appended st st' = [?R1]" using f1 by simp
    then show ?thesis by blast
  next
    case go: True
    show ?thesis
    proof (cases ok2)
      case False
      then have "st' = st3"
        using assms r1 r2 go by (simp add: deploy_def Let_def)
      then have "appended st st' = [?R1, ?T, ?W, ?R2]" using t3 by simp
      then show ?thesis using False ok2 by blast
    next
      case True
      obtain ok3 rev st4 where r3:
        "run_cmd e staged_cmd (repo_root cfg) 120 False st3 = ((ok3, rev), st4)"
        by (metis surj_pair)
      note f3 = run_cmd_facts[OF r3]
      let ?R3 = "Run (now st3) staged_cmd (repo_root cfg) 120"
      have t4: "trace st4 = trace st @ [?R1, ?T, ?W, ?R2, ?R3]"
        using f3 t3 by simp
      have res3: "cmd_result e (now st3) staged_cmd (repo_root cfg) 120 False = (ok3, rev)"
        using run_cmd_result[OF r3] by simp
      define rbw where "rbw = (if ok3 \<and> strip (db e) rev \<noteq> []
               then [Fs (Truncate (rollback_patch cfg req)), Fs (WriteData (rollback_patch cfg req) (Text rev))]
               else [])"
      define y where "y = (if ok3 \<and> strip (db e) rev \<noteq> []
                            then write_text (rollback_patch cfg req) (Text rev) st4 else st4)"
      define x where "x = (if ok3 \<and> strip (db e) rev \<noteq> []
          then [u ''Saved candidate patch: '' @ str_path (backup_patch cfg req)]
                 @ [u ''Saved rollback patch: '' @ str_path (rollback_patch cfg req)]
          else [u ''Saved candidate patch: '' @ str_path (backup_patch cfg req)])"
      have c: "cutover e cfg req x y = (r, st')"
        using assms r1 r2 r3 go True
        by (auto simp: deploy_def Let_def x_def y_def staged_cmd_def split: if_splits)
      have ty: "trace y = trace st4 @ rbw"
        by (simp add: y_def rbw_def write_text_def write_text_ops_def)
      obtain cut where cut: "trace st' = trace y @ cut" "fsops cut = []"
        using quiet_cutover[OF c] by blast
      have "trace st' = trace st @ ([?R1, ?T, ?W, ?R2, ?R3] @ rbw @ cut)"
        using cut(1) ty t4 by simp
      then have "appended st st' = [?R1, ?T, ?W, ?R2, ?R3] @ rbw @ cut"
        by (rule appended_append)
      then show ?thesis
        using True ok2 res3 cut(2) unfolding rbw_def by blast
    qed
  qed
qed


lemma not_staged:
  "\<not> staged_diff_is e cfg c (Run t [u ''git'', u ''diff'', u ''--binary'', u ''HEAD''] cwd timeout)"
  "\<not> staged_diff_is e cfg c (Run t (apply_cmd cfg req) cwd timeout)"
  "\<not> applied e cfg req (Run t [u ''git'', u ''diff'', u ''--binary'', u ''HEAD''] cwd timeout)"
  by (simp_all add: apply_cmd_def staged_cmd_def u_eq_iff)

lemma deploy_order:
  assumes "deploy e cfg req wt_dir st = (r, st')"
  shows "precedes (writes (backup_patch cfg req)) (is_live_apply cfg) (appended st st')"
    and "precedes (is_forward_apply cfg req) (writes (rollback_patch cfg req)) (appended st st')"
    and "precedes (applied e cfg req) (writes (rollback_patch cfg req)) (appended st st')"
    and "precedes (staged_diff_is e cfg c) (\<lambda>ev. ev = Fs (WriteData (rollback_patch cfg req) c))
           (appended st st')"
    and "none_after is_service (writes (rollback_patch cfg req)) (appended st st')"
proof -
  let ?R1 = "Run (now st) [u ''git'', u ''diff'', u ''--binary'', u ''HEAD''] wt_dir 120"
  let ?rb = "rollback_patch cfg req"
  obtain diff t2 where shape:
    "appended st st' = [?R1]
    \<or> appended st st' = [?R1,
          Fs (Truncate (backup_patch cfg req)), Fs (WriteData (backup_patch cfg req) (Text diff)),
          Run t2 (apply_cmd cfg req) (repo_root cfg) 120]
       \<and> \<not> fst (cmd_result e t2 (apply_cmd cfg req) (repo_root cfg) 120 False)
    \<or> (\<exists>t3 ok3 rev cut.
          appended st st' = [?R1,
            Fs (Truncate (backup_patch cfg req)), Fs (WriteData (backup_patch cfg req) (Text diff)),
            Run t2 (apply_cmd cfg req) (repo_root cfg) 120,
            Run t3 staged_cmd (repo_root cfg) 120]
            @ (if ok3 \<and> strip (db e) rev \<noteq> []
               then [Fs (Truncate (rollback_patch cfg req)), Fs (WriteData (rollback_patch cfg req) (Text rev))]
               else [])
            @ cut
          \<and> fst (cmd_result e t2 (apply_cmd cfg req) (repo_root cfg) 120 False)
          \<and> cmd_result e t3 staged_cmd (repo_root cfg) 120 False = (ok3, rev)
          \<and> fsops cut = [])"
    using deploy_shape[OF assms] by blast
  note d = paths_differ(6)[of cfg req]
  have "precedes (writes (backup_patch cfg req)) (is_live_apply cfg) (appended st st')
    \<and> precedes (is_forward_apply cfg req) (writes ?rb) (appended st st')
    \<and> precedes (applied e cfg req) (writes ?rb) (appended st st')
    \<and> precedes (staged_diff_is e cfg c) (\<lambda>ev. ev = Fs (WriteData ?rb c)) (appended st st')
    \<and> none_after is_service (writes ?rb) (appended st st')"
    using shape
  proof (elim disjE exE conjE)
    assume "appended st st' = [?R1]"
    then show ?thesis by (simp add: u_eq_iff not_apply not_staged)
  next
    assume "appended st st' = [?R1,
          Fs (Truncate (backup_patch cfg req)), Fs (WriteData (backup_patch cfg req) (Text diff)),
          Run t2 (apply_cmd cfg req) (repo_root cfg) 120]"
    then show ?thesis by (simp add: u_eq_iff not_apply d not_staged)
  next
    fix t3 ok3 rev cut
    assume a: "appended st st' = [?R1,
            Fs (Truncate (backup_patch cfg req)), Fs (WriteData (backup_patch cfg req) (Text diff)),
            Run t2 (apply_cmd cfg req) (repo_root cfg) 120,
            Run t3 staged_cmd (repo_root cfg) 120]
            @ (if ok3 \<and> strip (db e) rev \<noteq> []
               then [Fs (Truncate (rollback_patch cfg req)), Fs (WriteData (rollback_patch cfg req) (Text rev))]
               else [])
            @ cut"
      and ok2: "fst (cmd_result e t2 (apply_cmd cfg req) (repo_root cfg) 120 False)"
      and res: "cmd_result e t3 staged_cmd (repo_root cfg) 120 False = (ok3, rev)"
      and q: "fsops cut = []"
    note qe = quiet_events[OF q]
    have q1: "list_all (\<lambda>ev. \<not> writes ?rb ev) cut" using qe by blast
    have q2: "precedes (staged_diff_is e cfg c) (\<lambda>ev. ev = Fs (WriteData ?rb c)) cut"
      using qe[of _ "WriteData ?rb c"] by (intro precedes_quiet) simp
    have c1: "precedes (writes (backup_patch cfg req)) (is_live_apply cfg) (appended st st')"
      unfolding a by (simp add: u_eq_iff not_apply)
    have c2: "precedes (is_forward_apply cfg req) (writes ?rb) (appended st st')"
      unfolding a by (simp add: u_eq_iff not_apply d)
    have c3: "precedes (applied e cfg req) (writes ?rb) (appended st st')"
      unfolding a by (simp add: u_eq_iff not_apply not_staged d ok2)
    have c4: "precedes (staged_diff_is e cfg c) (\<lambda>ev. ev = Fs (WriteData ?rb c)) (appended st st')"
      unfolding a using q2 by (auto simp: u_eq_iff not_apply not_staged d res)
    have c5: "none_after is_service (writes ?rb) (appended st st')"
      unfolding a using none_after_quiet[OF q1, of is_service] by simp
    show ?thesis using c1 c2 c3 c4 c5 by blast
  qed
  then show "precedes (writes (backup_patch cfg req)) (is_live_apply cfg) (appended st st')"
    and "precedes (is_forward_apply cfg req) (writes (rollback_patch cfg req)) (appended st st')"
    and "precedes (applied e cfg req) (writes (rollback_patch cfg req)) (appended st st')"
    and "precedes (staged_diff_is e cfg c) (\<lambda>ev. ev = Fs (WriteData (rollback_patch cfg req) c))
           (appended st st')"
    and "none_after is_service (writes (rollback_patch cfg req)) (appended st st')"
    by blast+
qed


lemma strip_patch: "strip ascii_db (u ''diff --git'') \<noteq> []" "strip ascii_db [] = []"
  by (simp_all add: strip_def ascii_db_def u_def)

lemma quick_deploy:
  "appended ex_state (snd (deploy (ex_env ex_quick) ex_cfg ex_req [u ''wt''] ex_state))
   = [Run 0 [u ''git'', u ''diff'', u ''--binary'', u ''HEAD''] [u ''wt''] 120,
      Fs (Truncate (backup_patch ex_cfg ex_req)),
      Fs (WriteData (backup_patch ex_cfg ex_req) (Text (u ''diff --git''))),
      Run 0 (apply_cmd ex_cfg ex_req) (repo_root ex_cfg) 120,
      Run 0 [u ''git'', u ''diff'', u ''--binary'', u ''--cached''] (repo_root ex_cfg) 120,
      Fs (Truncate (rollback_patch ex_cfg ex_req)),
      Fs (WriteData (rollback_patch ex_cfg ex_req) (Text (u ''diff --git''))),
      Popen 0 (service_cmd ex_cfg) (repo_root ex_cfg) 7]"
  by (simp add: deploy_def cutover_def stop_service_def start_service_def run_cmd_def Let_def
      write_text_def write_text_ops_def ex_env_def ex_quick_def ex_state_def u_eq_iff strip_patch
      apply_cmd_def appended_def emit_def advance_def do_ops_def)

text \<open>
  C3, as the code has it. In every run of \<open>_deploy\<close>, whatever the commands and the
  service do: the forward patch is written to the backups before \<open>git apply\<close>, forward
  or reverse, is run on the live tree; the rollback patch is written only after the
  forward \<open>git apply --index\<close> has been run on the live tree and has succeeded; what is
  written as the rollback patch is the output of a \<open>git diff --binary --cached\<close> run
  before it in the live tree, which ended with status 0 and whose output is not blank;
  and no rollback patch is written once the service has been signalled or launched.
\<close>

theorem deploy_patch_order:
  "precedes (writes (backup_patch cfg req)) (is_live_apply cfg)
     (appended st (snd (deploy e cfg req wt_dir st)))
   \<and> precedes (is_forward_apply cfg req) (writes (rollback_patch cfg req))
       (appended st (snd (deploy e cfg req wt_dir st)))
   \<and> precedes (applied e cfg req) (writes (rollback_patch cfg req))
       (appended st (snd (deploy e cfg req wt_dir st)))
   \<and> precedes (staged_diff_is e cfg c) (\<lambda>ev. ev = Fs (WriteData (rollback_patch cfg req) c))
       (appended st (snd (deploy e cfg req wt_dir st)))
   \<and> none_after is_service (writes (rollback_patch cfg req))
       (appended st (snd (deploy e cfg req wt_dir st)))"
  by (simp add: deploy_order[OF prod.collapse[symmetric]])

theorem deploy_patch_order_witness:
  "precedes (writes (backup_patch ex_cfg ex_req)) (is_live_apply ex_cfg)
     (appended ex_state (snd (deploy (ex_env ex_quick) ex_cfg ex_req [u ''wt''] ex_state)))
   \<and> precedes (staged_diff_is (ex_env ex_quick) ex_cfg (Text (u ''diff --git'')))
       (\<lambda>ev. ev = Fs (WriteData (rollback_patch ex_cfg ex_req) (Text (u ''diff --git''))))
       (appended ex_state (snd (deploy (ex_env ex_quick) ex_cfg ex_req [u ''wt''] ex_state)))
   \<and> none_after is_service (writes (rollback_patch ex_cfg ex_req))
       (appended ex_state (snd (deploy (ex_env ex_quick) ex_cfg ex_req [u ''wt''] ex_state)))
   \<and> appended ex_state (snd (deploy (ex_env ex_quick) ex_cfg ex_req [u ''wt''] ex_state)) ! 2
       = Fs (WriteData (backup_patch ex_cfg ex_req) (Text (u ''diff --git'')))
   \<and> appended ex_state (snd (deploy (ex_env ex_quick) ex_cfg ex_req [u ''wt''] ex_state)) ! 3
       = Run 0 (apply_cmd ex_cfg ex_req) (repo_root ex_cfg) 120
   \<and> appended ex_state (snd (deploy (ex_env ex_quick) ex_cfg ex_req [u ''wt''] ex_state)) ! 6
       = Fs (WriteData (rollback_patch ex_cfg ex_req) (Text (u ''diff --git'')))
   \<and> appended ex_state (snd (deploy (ex_env ex_quick) ex_cfg ex_req [u ''wt''] ex_state)) ! 7
       = Popen 0 (service_cmd ex_cfg) (repo_root ex_cfg) 7"
  using deploy_patch_order[of ex_cfg ex_req ex_state "ex_env ex_quick" "[u ''wt'']" "Text (u ''diff --git'')"]
  by (simp add: quick_deploy)

text \<open>
  C3 as stated fails for the rollback patch: in a deploy that goes through, \<open>git apply\<close>
  changes the live tree as the fourth event and the rollback patch is written as the
  seventh.
\<close>

theorem deploy_patch_order_counterexample:
  "appended ex_state (snd (deploy (ex_env ex_quick) ex_cfg ex_req [u ''wt''] ex_state)) ! 3
       = Run 0 (apply_cmd ex_cfg ex_req) (repo_root ex_cfg) 120
   \<and> is_live_apply ex_cfg (Run 0 (apply_cmd ex_cfg ex_req) (repo_root ex_cfg) 120)
   \<and> appended ex_state (snd (deploy (ex_env ex_quick) ex_cfg ex_req [u ''wt''] ex_state)) ! 6
       = Fs (WriteData (rollback_patch ex_cfg ex_req) (Text (u ''diff --git'')))
   \<and> \<not> precedes (writes (rollback_patch ex_cfg ex_req)) (is_live_apply ex_cfg)
         (appended ex_state (snd (deploy (ex_env ex_quick) ex_cfg ex_req [u ''wt''] ex_state)))"
  using paths_differ(6)[of ex_cfg ex_req]
  by (simp add: quick_deploy apply_cmd_def u_eq_iff)


lemma settlesI:
  assumes "trace st' = trace st @ evs" "fsops evs = pre @ write_task_md_ops cfg req status ns updated"
    "terminal status" "list_all P pre"
    "\<And>p. map_of (files st) p \<noteq> None \<Longrightarrow> map_of (files st') p \<noteq> None"
  shows "settles cfg req P st st'"
  using assms unfolding settles_def by blast

lemma settles_write:
  assumes "terminal status"
  shows "settles cfg req P st (write_task_md e cfg req status ns st)"
  using assms
  by (intro settlesI[of _ _ "map Fs (write_task_md_ops cfg req status ns (utc_iso e (now st)))" "[]"])
     (auto simp: write_task_md_def write_task_md_ops_def write_text_ops_def apply_ops_def)

lemma grows_settles:
  assumes "grows P a b" and "settles cfg req P b c"
  shows "settles cfg req P a c"
proof -
  obtain xs where xs: "trace b = trace a @ xs" "list_all P (fsops xs)"
    using assms(1) unfolding grows_def by blast
  obtain ys pre status ns updated where ys: "trace c = trace b @ ys"
    "fsops ys = pre @ write_task_md_ops cfg req status ns updated" "terminal status" "list_all P pre"
    using assms(2) unfolding settles_def by blast
  have "trace c = trace a @ (xs @ ys)"
    "fsops (xs @ ys) = (fsops xs @ pre) @ write_task_md_ops cfg req status ns updated"
    "list_all P (fsops xs @ pre)"
    using xs ys by simp_all
  then show ?thesis
    using ys(3) assms unfolding settles_def grows_def by blast
qed

lemma settles_quiet:
  assumes "settles cfg req P a b" and "grows (\<lambda>op. False) b c"
  shows "settles cfg req P a c"
proof -
  obtain xs pre status ns updated where xs: "trace b = trace a @ xs"
    "fsops xs = pre @ write_task_md_ops cfg req status ns updated" "terminal status" "list_all P pre"
    using assms(1) unfolding settles_def by blast
  obtain ys where ys: "trace c = trace b @ ys" "list_all (\<lambda>op. False) (fsops ys)"
    using assms(2) unfolding grows_def by blast
  have "fsops ys = []"
    using ys(2) by (cases "fsops ys") auto
  then have "trace c = trace a @ (xs @ ys)"
    "fsops (xs @ ys) = pre @ write_task_md_ops cfg req status ns updated"
    using xs ys by simp_all
  then show ?thesis
    using xs(3,4) assms unfolding settles_def grows_def by blast
qed

lemma outside_queue_patches:
  "outside_queue cfg (Truncate (backup_patch cfg req))" "outside_queue cfg (WriteData (backup_patch cfg req) c)"
  "outside_queue cfg (Truncate (rollback_patch cfg req))" "outside_queue cfg (WriteData (rollback_patch cfg req) c)"
  "outside_queue cfg (Truncate (task_md_path cfg req))" "outside_queue cfg (WriteData (task_md_path cfg req) c)"
  using paths_differ[of cfg req] by (simp_all add: outside_queue_def)

lemma grows_deploy:
  assumes "deploy e cfg req wt_dir st = (r, st')"
  shows "grows (outside_queue cfg) st st'"
proof -
  let ?P = "outside_queue cfg"
  obtain ok1 diff st1 where r1:
    "run_cmd e [u ''git'', u ''diff'', u ''--binary'', u ''HEAD''] wt_dir 120 False st = ((ok1, diff), st1)"
    by (metis surj_pair)
  have g1: "grows ?P st st1" using grows_run_cmd[OF r1] .
  let ?st2 = "write_text (backup_patch cfg req) (Text diff) st1"
  have g2: "grows ?P st ?st2"
    using g1 grows_write_text[of ?P "backup_patch cfg req" "Text diff" st1] outside_queue_patches grows_trans
    by blast
  obtain ok2 out st3 where r2:
    "run_cmd e (apply_cmd cfg req) (repo_root cfg) 120 False ?st2 = ((ok2, out), st3)"
    by (metis surj_pair)
  have g3: "grows ?P st st3" using g2 grows_run_cmd[OF r2] grows_trans by blast
  show ?thesis
  proof (cases "ok1 \<and> strip (db e) diff \<noteq> []")
    case False
    then have "st' = st1"
      using assms r1 by (auto simp: deploy_def split: if_splits)
    then show ?thesis using g1 by simp
  next
    case go: True
    show ?thesis
    proof (cases ok2)
      case False
      then have "st' = st3"
        using assms r1 r2 go by (simp add: deploy_def Let_def)
      then show ?thesis using g3 by simp
    next
      case True
      obtain ok3 rev st4 where r3:
        "run_cmd e [u ''git'', u ''diff'', u ''--binary'', u ''--cached''] (repo_root cfg) 120 False st3
           = ((ok3, rev), st4)"
        by (metis surj_pair)
      have g4: "grows ?P st st4" using g3 grows_run_cmd[OF r3] grows_trans by blast
      define y where "y = (if ok3 \<and> strip (db e) rev \<noteq> []
                            then write_text (rollback_patch cfg req) (Text rev) st4 else st4)"
      define x where "x = (if ok3 \<and> strip (db e) rev \<noteq> []
          then [u ''Saved candidate patch: '' @ str_path (backup_patch cfg req)]
                 @ [u ''Saved rollback patch: '' @ str_path (rollback_patch cfg req)]
          else [u ''Saved candidate patch: '' @ str_path (backup_patch cfg req)])"
      have c: "cutover e cfg req x y = (r, st')"
        using assms r1 r2 r3 go True by (auto simp: deploy_def Let_def x_def y_def split: if_splits)
      have "grows ?P st4 y"
        using grows_write_text[of ?P "rollback_patch cfg req" "Text rev" st4] outside_queue_patches
        by (simp add: y_def grows_refl)
      then show ?thesis
        using g4 grows_cutover[OF c] grows_trans by blast
    qed
  qed
qed

lemma terminal_simps: "terminal (u ''SUCCESS'')" "terminal (u ''FAILED'')" "terminal (u ''REJECTED'')"
  by (simp_all add: terminal_def)

lemma in_sandbox_cases:
  assumes "in_sandbox e cfg req wt_dir st = (r, st')"
  shows "case r of Inr done \<Rightarrow> settles cfg req (outside_queue cfg) st st'
                 | Inl err \<Rightarrow> grows (outside_queue cfg) st st'"
proof -
  let ?P = "outside_queue cfg"
  obtain ok ns st1 where d: "develop_and_verify e cfg req wt_dir st = ((ok, ns), st1)"
    by (metis surj_pair)
  have g1: "grows ?P st st1" using grows_develop[OF d] .
  show ?thesis
  proof (cases ok)
    case False
    then have "r = Inr ()" "st' = write_task_md e cfg req (u ''FAILED'') ns st1"
      using assms d by (simp_all add: in_sandbox_def)
    then show ?thesis
      using grows_settles[OF g1 settles_write[OF terminal_simps(2)]] by simp
  next
    case True
    obtain r2 st2 where p: "deploy e cfg req wt_dir st1 = (r2, st2)"
      by (metis surj_pair)
    have g2: "grows ?P st st2" using g1 grows_deploy[OF p] grows_trans by blast
    show ?thesis
    proof (cases r2)
      case (Inl err)
      then show ?thesis using assms d p True g2 by (auto simp: in_sandbox_def)
    next
      case (Inr res)
      obtain deploy_ok deploy_notes where res: "res = (deploy_ok, deploy_notes)"
        by (cases res) auto
      have "r = Inr ()"
        "st' = write_task_md e cfg req (if deploy_ok then u ''SUCCESS'' else u ''FAILED'') (ns @ deploy_notes) st2"
        using assms d p True Inr res by (simp_all add: in_sandbox_def)
      moreover have "terminal (if deploy_ok then u ''SUCCESS'' else u ''FAILED'')"
        by (simp add: terminal_simps)
      ultimately show ?thesis
        using grows_settles[OF g2 settles_write] by simp
    qed
  qed
qed

lemma process_cases:
  assumes "process e cfg req st = (r, st')"
  shows "case r of Inr done \<Rightarrow> settles cfg req (outside_queue cfg) st st'
                 | Inl err \<Rightarrow> grows (outside_queue cfg) st st'"
proof (cases "scope req \<noteq> u ''core''")
  case True
  then show ?thesis
    using assms settles_write[OF terminal_simps(3)] by (auto simp: process_def)
next
  case core: False
  let ?P = "outside_queue cfg"
  obtain clean detail st1 where c: "repo_is_clean e cfg st = ((clean, detail), st1)"
    by (metis surj_pair)
  have g1: "grows ?P st st1" using grows_repo_is_clean[OF c] .
  show ?thesis
  proof (cases clean)
    case False
    then have "r = Inr ()" "st' = write_task_md e cfg req (u ''FAILED'') [u ''Repo not clean: '' @ detail] st1"
      using assms c core by (simp_all add: process_def)
    then show ?thesis
      using grows_settles[OF g1 settles_write[OF terminal_simps(2)]] by simp
  next
    case True
    let ?st2 = "write_task_md e cfg req (u ''IN_PROGRESS'') [u ''Creating isolated worktree.''] st1"
    let ?wt = "worktrees cfg @ [req_id req]"
    let ?branch = "u ''codex/upgrade-'' @ slug (db e) (title req) @ u ''-'' @ lastn 6 (req_id req)"
    have g2: "grows ?P st ?st2"
      using g1 grows_write_task_md[OF outside_queue_patches(5) outside_queue_patches(6)] grows_trans
      by blast
    obtain added st3 where a:
      "run_cmd e [u ''git'', u ''worktree'', u ''add'', u ''-B'', ?branch, str_path ?wt, u ''HEAD'']
         (repo_root cfg) 120 True ?st2 = (added, st3)"
      by (metis surj_pair)
    have g3: "grows ?P st st3" using g2 grows_run_cmd[OF a] grows_trans by blast
    obtain r4 st4 where b: "in_sandbox e cfg req ?wt st3 = (r4, st4)"
      by (metis surj_pair)
    obtain removed st5 where rm:
      "run_cmd e [u ''git'', u ''worktree'', u ''remove'', u ''--force'', str_path ?wt]
         (repo_root cfg) 120 True st4 = (removed, st5)"
      by (metis surj_pair)
    have res: "r = r4" "st' = st5"
      using assms c core True a b rm by (simp_all add: process_def Let_def)
    show ?thesis
    proof (cases r4)
      case (Inl err)
      then have "grows ?P st3 st4" using in_sandbox_cases[OF b] by simp
      then show ?thesis
        using res Inl g3 grows_run_cmd[OF rm] grows_trans by (metis (no_types, lifting) sum.simps(5))
    next
      case (Inr fin)
      then have "settles cfg req ?P st3 st4" using in_sandbox_cases[OF b] by simp
      then have "settles cfg req ?P st st5"
        using g3 grows_run_cmd[OF rm] grows_settles settles_quiet by blast
      then show ?thesis using res Inr by simp
    qed
  qed
qed

lemma map_of_delete [simp]: "map_of (AList.delete k al) = (map_of al)(k := None)"
  by (rule delete_conv')

lemma run_task_settles:
  assumes "map_of (files st) req_file \<noteq> None"
  shows "\<exists>evs pre status ns updated.
      trace (run_task e cfg req_file req st) = trace st @ evs
      \<and> fsops evs = pre @ write_task_md_ops cfg req status ns updated @ [Unlink req_file]
      \<and> terminal status \<and> list_all (outside_queue cfg) pre
      \<and> map_of (files (run_task e cfg req_file req st)) req_file = None"
proof -
  let ?P = "outside_queue cfg"
  obtain r st1 where p: "process e cfg req st = (r, st1)"
    by (metis surj_pair)
  have "\<exists>st2. settles cfg req ?P st st2 \<and> run_task e cfg req_file req st = pop req_file st2"
  proof (cases r)
    case (Inr fin)
    then show ?thesis
      using process_cases[OF p] p by (auto simp: run_task_def)
  next
    case (Inl err)
    then have "grows ?P st st1"
      using process_cases[OF p] by simp
    then have "settles cfg req ?P st (write_task_md e cfg req (u ''FAILED'') [u ''Supervisor exception: '' @ err] st1)"
      using grows_settles settles_write[OF terminal_simps(2)] by blast
    then show ?thesis
      using p Inl by (auto simp: run_task_def)
  qed
  then obtain st2 where s: "settles cfg req ?P st st2" "run_task e cfg req_file req st = pop req_file st2"
    by blast
  obtain evs pre status ns updated where e: "trace st2 = trace st @ evs"
    "fsops evs = pre @ write_task_md_ops cfg req status ns updated" "terminal status" "list_all ?P pre"
    using s(1) unfolding settles_def by blast
  have there: "map_of (files st2) req_file \<noteq> None"
    using s(1) assms unfolding settles_def by blast
  have "trace (pop req_file st2) = trace st @ (evs @ [Fs (Unlink req_file)])"
    "fsops (evs @ [Fs (Unlink req_file)]) = pre @ write_task_md_ops cfg req status ns updated @ [Unlink req_file]"
    "map_of (files (pop req_file st2)) req_file = None"
    using there e by (simp_all add: pop_def apply_ops_def)
  then show ?thesis
    using s(2) e(3,4) by metis
qed

lemma count_list_writes: "list_all is_write ops \<Longrightarrow> count_list ops (Unlink p) = 0"
  by (induction ops) auto


lemma endswith_append: "endswith (a @ s) s"
  by (simp add: endswith_def)

lemma queued_files:
  "files ex_queued
     = [(req_path ex_cfg ex_req, Json ex_req),
        (task_md_path ex_cfg ex_req, Text (task_md_text ex_req (u ''QUEUED'') [u ''Task queued.''] (u ''T'')))]"
  using paths_differ(1)[of ex_cfg ex_req ex_req]
  by (simp add: ex_queued_def enqueue_def enqueue_ops_def write_task_md_ops_def write_text_ops_def
      apply_ops_def ex_state_def ex_env_def)

text \<open>
  An example of a round in which \<open>_process\<close> raises: in the world \<open>ex_faulty\<close> the
  restart of the service during the cutover raises \<open>boom\<close>; the handler records the
  task as failed and the queue entry is removed last.
\<close>

lemma queued_state:
  "ex_queued = \<lparr> now = 0,
       files = [(req_path ex_cfg ex_req, Json ex_req),
                (task_md_path ex_cfg ex_req,
                 Text (task_md_text ex_req (u ''QUEUED'') [u ''Task queued.''] (u ''T'')))],
       service_proc = None,
       trace = map Fs (enqueue_ops ex_cfg ex_req (u ''T'')) \<rparr>"
  using paths_differ(1)[of ex_cfg ex_req ex_req]
  by (simp add: ex_queued_def enqueue_def enqueue_ops_def write_task_md_ops_def write_text_ops_def
      apply_ops_def ex_state_def ex_env_def do_ops_def)

lemma faulty_start:
  "ensure_service_running ex_faulty ex_cfg ex_queued
   = (Inr (), ex_queued\<lparr>now := 20000000, service_proc := Some 7,
        trace := trace ex_queued @ [Popen 0 (service_cmd ex_cfg) (repo_root ex_cfg) 7]\<rparr>)"
  by (simp add: queued_state ensure_service_running_def start_service_def ex_faulty_def ex_env_def
      Let_def emit_def advance_def ex_cfg_def tps_def)


lemma faulty_env [simp]:
  "db ex_faulty = ascii_db" "utc_iso ex_faulty t = u ''T''" "which_at ex_faulty t name = True"
  "proc_at ex_faulty t cmd cwd = ex_quick t cmd"
  "popen_at ex_faulty t = (if t = 0 then Inr 7 else Inl (u ''boom''))"
  "alive_at ex_faulty t pid = True" "term_at ex_faulty t pid = ExitsAfter 5"
  by (simp_all add: ex_faulty_def ex_env_def)

lemma faulty_clean:
  "repo_is_clean ex_faulty ex_cfg st
   = ((True, u ''clean''),
      advance 0 (emit [Run (now st) [u ''git'', u ''status'', u ''--porcelain''] (repo_root ex_cfg) 30] st))"
  by (simp add: repo_is_clean_def run_cmd_def ex_quick_def u_eq_iff strip_patch Let_def)

lemma faulty_develop:
  "fst (fst (develop_and_verify ex_faulty ex_cfg ex_req wt st)) = True
   \<and> fsops (appended st (snd (develop_and_verify ex_faulty ex_cfg ex_req wt st))) = []
   \<and> now st < now (snd (develop_and_verify ex_faulty ex_cfg ex_req wt st))
   \<and> service_proc (snd (develop_and_verify ex_faulty ex_cfg ex_req wt st)) = service_proc st
   \<and> files (snd (develop_and_verify ex_faulty ex_cfg ex_req wt st)) = files st"
  by (simp add: develop_and_verify_def dv_loop.simps attempt_body_def run_optional_codex_def which_def
      run_cmd_def ex_quick_def codex_cmd_def verify_def checks_def u_eq_iff Let_def ex_cfg_def tps_def
      appended_def)


lemma faulty_deploy:
  assumes "0 < now st" and "service_proc st = Some 7"
  shows "fst (deploy ex_faulty ex_cfg ex_req wt st) = Inl (u ''boom'')
   \<and> fsops (appended st (snd (deploy ex_faulty ex_cfg ex_req wt st)))
       = [Truncate (backup_patch ex_cfg ex_req),
          WriteData (backup_patch ex_cfg ex_req) (Text (u ''diff --git'')),
          Truncate (rollback_patch ex_cfg ex_req),
          WriteData (rollback_patch ex_cfg ex_req) (Text (u ''diff --git''))]
   \<and> (\<exists>evs. trace (snd (deploy ex_faulty ex_cfg ex_req wt st)) = trace st @ evs)
   \<and> map_of (files (snd (deploy ex_faulty ex_cfg ex_req wt st)))
       = (map_of (files st))(backup_patch ex_cfg ex_req \<mapsto> Text (u ''diff --git''),
                             rollback_patch ex_cfg ex_req \<mapsto> Text (u ''diff --git''))"
  using assms
  by (simp add: deploy_def run_cmd_def ex_quick_def u_eq_iff strip_patch Let_def apply_cmd_def
      write_text_def write_text_ops_def cutover_def stop_service_def terminate_process_def
      start_service_def tps_def appended_def apply_ops_def)


lemma fsops_of_prefix:
  assumes "trace b = trace a @ evs" and "fsops (trace b) = fsops (trace a) @ ops"
  shows "fsops (appended a b) = ops"
  using assms by simp

lemma quiet_fsops: "grows (\<lambda>op. False) a b \<Longrightarrow> fsops (trace b) = fsops (trace a)"
proof -
  assume "grows (\<lambda>op. False) a b"
  then obtain evs where e: "trace b = trace a @ evs" "list_all (\<lambda>op. False) (fsops evs)"
    unfolding grows_def by blast
  have "fsops evs = []" using e(2) by (cases "fsops evs") auto
  then show ?thesis using e(1) by simp
qed

lemma faulty_process:
  assumes "0 < now st" and "service_proc st = Some 7"
  shows "fst (process ex_faulty ex_cfg ex_req st) = Inl (u ''boom'')
   \<and> fsops (trace (snd (process ex_faulty ex_cfg ex_req st)))
       = fsops (trace st)
         @ [Truncate (task_md_path ex_cfg ex_req),
            WriteData (task_md_path ex_cfg ex_req)
              (Text (task_md_text ex_req (u ''IN_PROGRESS'') [u ''Creating isolated worktree.''] (u ''T''))),
            Truncate (backup_patch ex_cfg ex_req),
            WriteData (backup_patch ex_cfg ex_req) (Text (u ''diff --git'')),
            Truncate (rollback_patch ex_cfg ex_req),
            WriteData (rollback_patch ex_cfg ex_req) (Text (u ''diff --git''))]"
proof -
  let ?E = ex_faulty
  let ?wt = "worktrees ex_cfg @ [req_id ex_req]"
  let ?branch = "u ''codex/upgrade-'' @ slug (db ?E) (title ex_req) @ u ''-'' @ lastn 6 (req_id ex_req)"
  have sc: "scope ex_req = u ''core''"
    by (simp add: ex_req_def)
  define st1 where "st1 = snd (repo_is_clean ?E ex_cfg st)"
  have c: "repo_is_clean ?E ex_cfg st = ((True, u ''clean''), st1)"
    by (simp add: st1_def faulty_clean)
  have s1: "fsops (trace st1) = fsops (trace st)" "now st1 = now st" "service_proc st1 = service_proc st"
    by (simp_all add: st1_def faulty_clean)
  define st2 where "st2 = write_task_md ?E ex_cfg ex_req (u ''IN_PROGRESS'') [u ''Creating isolated worktree.''] st1"
  have s2: "fsops (trace st2) = fsops (trace st)
      @ [Truncate (task_md_path ex_cfg ex_req),
         WriteData (task_md_path ex_cfg ex_req)
           (Text (task_md_text ex_req (u ''IN_PROGRESS'') [u ''Creating isolated worktree.''] (u ''T'')))]"
    "now st2 = now st" "service_proc st2 = service_proc st"
    using s1 by (simp_all add: st2_def write_task_md_def write_task_md_ops_def write_text_ops_def)
  obtain added st3 where a:
    "run_cmd ?E [u ''git'', u ''worktree'', u ''add'', u ''-B'', ?branch, str_path ?wt, u ''HEAD'']
       (repo_root ex_cfg) 120 True st2 = (added, st3)"
    by (metis surj_pair)
  have s3: "fsops (trace st3) = fsops (trace st2)" "now st2 \<le> now st3" "service_proc st3 = service_proc st2"
    using run_cmd_facts[OF a] by simp_all
  obtain ok ns st4 where d: "develop_and_verify ?E ex_cfg ex_req ?wt st3 = ((ok, ns), st4)"
    by (metis surj_pair)
  have ok: "ok" and s4: "now st3 < now st4" "service_proc st4 = service_proc st3"
    using faulty_develop[of ?wt st3] d by simp_all
  have f4: "fsops (trace st4) = fsops (trace st3)"
    using quiet_fsops[OF grows_develop[OF d]] .
  obtain r5 st5 where p: "deploy ?E ex_cfg ex_req ?wt st4 = (r5, st5)"
    by (metis surj_pair)
  have pre: "0 < now st4" "service_proc st4 = Some 7"
    using s4 s3 s2 assms by simp_all
  from faulty_deploy[OF pre, of ?wt] p
  have r5: "r5 = Inl (u ''boom'')"
    and a5: "fsops (appended st4 st5)
       = [Truncate (backup_patch ex_cfg ex_req),
          WriteData (backup_patch ex_cfg ex_req) (Text (u ''diff --git'')),
          Truncate (rollback_patch ex_cfg ex_req),
          WriteData (rollback_patch ex_cfg ex_req) (Text (u ''diff --git''))]"
    and x5: "\<exists>evs. trace st5 = trace st4 @ evs"
    by simp_all
  obtain evs where e5: "trace st5 = trace st4 @ evs"
    using x5 by blast
  have f5: "fsops (trace st5) = fsops (trace st4) @ fsops (appended st4 st5)"
    using e5 by simp
  have b: "in_sandbox ?E ex_cfg ex_req ?wt st3 = (Inl (u ''boom''), st5)"
    using d ok p r5 by (simp add: in_sandbox_def)
  obtain removed st6 where rm:
    "run_cmd ?E [u ''git'', u ''worktree'', u ''remove'', u ''--force'', str_path ?wt]
       (repo_root ex_cfg) 120 True st5 = (removed, st6)"
    by (metis surj_pair)
  have s6: "fsops (trace st6) = fsops (trace st5)"
    using run_cmd_facts[OF rm] by simp
  have "process ?E ex_cfg ex_req st = (Inl (u ''boom''), st6)"
    using c a b rm sc by (simp add: process_def Let_def st2_def)
  then show ?thesis
    using s6 f5 a5 f4 s3(1) s2(1) by simp
qed


lemma faulty_round:
  "fsops (appended ex_queued (snd (poll ex_faulty ex_cfg 3 ex_queued)))
   = [Truncate (task_md_path ex_cfg ex_req),
      WriteData (task_md_path ex_cfg ex_req)
        (Text (task_md_text ex_req (u ''IN_PROGRESS'') [u ''Creating isolated worktree.''] (u ''T''))),
      Truncate (backup_patch ex_cfg ex_req),
      WriteData (backup_patch ex_cfg ex_req) (Text (u ''diff --git'')),
      Truncate (rollback_patch ex_cfg ex_req),
      WriteData (rollback_patch ex_cfg ex_req) (Text (u ''diff --git'')),
      Truncate (task_md_path ex_cfg ex_req),
      WriteData (task_md_path ex_cfg ex_req)
        (Text (task_md_text ex_req (u ''FAILED'') [u ''Supervisor exception: boom''] (u ''T''))),
      Unlink (req_path ex_cfg ex_req)]"
proof -
  let ?E = ex_faulty
  let ?rp = "req_path ex_cfg ex_req"
  define st1 where "st1 = snd (ensure_service_running ?E ex_cfg ex_queued)"
  have en: "ensure_service_running ?E ex_cfg ex_queued = (Inr (), st1)"
    by (simp add: st1_def faulty_start)
  have s1: "files st1 = files ex_queued" "0 < now st1" "service_proc st1 = Some 7"
    "trace st1 = trace ex_queued @ [Popen 0 (service_cmd ex_cfg) (repo_root ex_cfg) 7]"
    by (simp_all add: st1_def faulty_start)
  have lp: "list_pending ex_cfg st1 = [?rp]"
    using paths_differ(2,5)[of ex_cfg ex_req]
    by (simp add: list_pending_def s1 queued_files) (simp add: req_path_def endswith_append)
  have ld: "load ?rp st1 = Inr ex_req"
    by (simp add: load_def s1 queued_files)
  have there: "map_of (files st1) ?rp \<noteq> None"
    by (simp add: s1 queued_files)
  have pl: "snd (poll ?E ex_cfg 3 ex_queued) = advance (3 * tps) (run_task ?E ex_cfg ?rp ex_req st1)"
    using en lp ld by (simp add: poll_def)
  obtain r st6 where p: "process ?E ex_cfg ex_req st1 = (r, st6)"
    by (metis surj_pair)
  from faulty_process[OF s1(2,3)] p
  have r: "r = Inl (u ''boom'')"
    and f6: "fsops (trace st6) = fsops (trace st1)
         @ [Truncate (task_md_path ex_cfg ex_req),
            WriteData (task_md_path ex_cfg ex_req)
              (Text (task_md_text ex_req (u ''IN_PROGRESS'') [u ''Creating isolated worktree.''] (u ''T''))),
            Truncate (backup_patch ex_cfg ex_req),
            WriteData (backup_patch ex_cfg ex_req) (Text (u ''diff --git'')),
            Truncate (rollback_patch ex_cfg ex_req),
            WriteData (rollback_patch ex_cfg ex_req) (Text (u ''diff --git''))]"
    by simp_all
  have "grows (outside_queue ex_cfg) st1 st6"
    using process_cases[OF p] r by simp
  then have there6: "map_of (files st6) ?rp \<noteq> None"
    using there unfolding grows_def by blast
  define st7 where "st7 = write_task_md ?E ex_cfg ex_req (u ''FAILED'') [u ''Supervisor exception: '' @ u ''boom''] st6"
  have there7: "map_of (files st7) ?rp \<noteq> None"
    using there6
    by (simp add: st7_def write_task_md_def write_task_md_ops_def write_text_ops_def apply_ops_def)
  have f7: "fsops (trace st7) = fsops (trace st6)
      @ [Truncate (task_md_path ex_cfg ex_req),
         WriteData (task_md_path ex_cfg ex_req)
           (Text (task_md_text ex_req (u ''FAILED'') [u ''Supervisor exception: boom''] (u ''T'')))]"
    by (simp add: st7_def write_task_md_def write_task_md_ops_def write_text_ops_def u_append)
  have rt: "run_task ?E ex_cfg ?rp ex_req st1 = do_ops [Unlink ?rp] st7"
    using p r there7 by (simp add: run_task_def pop_def st7_def)
  obtain evs where pre: "trace (run_task ?E ex_cfg ?rp ex_req st1) = trace st1 @ evs"
    using run_task_settles[OF there, of ?E ex_cfg ex_req] by blast
  have whole: "trace (snd (poll ?E ex_cfg 3 ex_queued))
      = trace ex_queued @ (Popen 0 (service_cmd ex_cfg) (repo_root ex_cfg) 7 # evs)"
    using pl pre s1(4) by simp
  have "fsops (trace (snd (poll ?E ex_cfg 3 ex_queued))) = fsops (trace st7) @ [Unlink ?rp]"
    using pl rt by simp
  then show ?thesis
    using fsops_of_prefix[OF whole] f7 f6 s1(4) by simp
qed




end
